theory Spec2Isabelle
  imports Complex_Main "HOL-Library.Multiset"
begin

section \<open>Numbers\<close>

text \<open>
  The components are TypeScript: every number is an IEEE 754 binary64 value. A number is
  modelled as \<open>NaN\<close>, one of the two infinities, or a finite value given by the rational it
  denotes; the two zeros are identified (nothing in the modelled code divides by a zero or
  prints the sign of a zero). Arithmetic computes the exact rational result and rounds it
  to the nearest double, ties to even, with gradual underflow and overflow to infinity.
\<close>

datatype jsnum = NaN | NInf | Fin rat | PInf

definition pow2 :: "int \<Rightarrow> rat" where
  "pow2 k = (if 0 \<le> k then of_int (2 ^ nat k) else 1 / of_int (2 ^ nat (- k)))"

text \<open>The number of binary digits of a positive integer.\<close>

function blen :: "int \<Rightarrow> int" where
  "blen n = (if n \<le> 0 then 0 else 1 + blen (n div 2))"
  by auto
termination
  by (relation "measure nat") auto

declare blen.simps [simp del]

text \<open>\<open>flog2 a\<close> is the binary exponent of a positive rational: \<open>2 ^ flog2 a \<le> a < 2 ^ (flog2 a + 1)\<close>.\<close>

definition flog2 :: "rat \<Rightarrow> int" where
  "flog2 a = (if 1 \<le> a then blen \<lfloor>a\<rfloor> - 1 else - blen (\<lceil>1 / a\<rceil> - 1))"

text \<open>Rounding to the nearest integer, ties to the even one.\<close>

definition rhe :: "rat \<Rightarrow> int" where
  "rhe x = (let f = \<lfloor>x\<rfloor>; d = x - of_int f in
     if d < 1 / 2 then f else if 1 / 2 < d then f + 1 else if even f then f else f + 1)"

text \<open>
  Rounding a rational to binary64: 53 significant bits, the exponent of the unit in the
  last place not below \<open>- 1074\<close> (subnormal numbers), infinity from \<open>2 ^ 1024\<close> on.
  \<open>round_mag\<close> rounds a positive magnitude with an exponent unbounded above.
\<close>

definition round_mag :: "rat \<Rightarrow> rat" where
  "round_mag a = (let e = max (flog2 a) (- 1022); u = pow2 (e - 52) in of_int (rhe (a / u)) * u)"

definition round_double :: "rat \<Rightarrow> jsnum" where
  "round_double q = (if q = 0 then Fin 0 else
     (let r = round_mag \<bar>q\<bar>
      in if pow2 1024 \<le> r then (if 0 < q then PInf else NInf)
         else Fin (if 0 < q then r else - r)))"

text \<open>A rational is a double when rounding leaves it as it is.\<close>

definition is_double :: "rat \<Rightarrow> bool" where
  "is_double q = (round_double q = Fin q)"

definition isNaN :: "jsnum \<Rightarrow> bool" where
  "isNaN x = (x = NaN)"

definition js_neg :: "jsnum \<Rightarrow> jsnum" where
  "js_neg x = (case x of NaN \<Rightarrow> NaN | NInf \<Rightarrow> PInf | Fin a \<Rightarrow> Fin (- a) | PInf \<Rightarrow> NInf)"

definition js_add :: "jsnum \<Rightarrow> jsnum \<Rightarrow> jsnum" where
  "js_add x y = (case x of
       NaN \<Rightarrow> NaN
     | PInf \<Rightarrow> (case y of NaN \<Rightarrow> NaN | NInf \<Rightarrow> NaN | _ \<Rightarrow> PInf)
     | NInf \<Rightarrow> (case y of NaN \<Rightarrow> NaN | PInf \<Rightarrow> NaN | _ \<Rightarrow> NInf)
     | Fin a \<Rightarrow> (case y of Fin b \<Rightarrow> round_double (a + b) | _ \<Rightarrow> y))"

definition js_sub :: "jsnum \<Rightarrow> jsnum \<Rightarrow> jsnum" where
  "js_sub x y = js_add x (js_neg y)"

definition js_sgn :: "jsnum \<Rightarrow> int" where
  "js_sgn x = (case x of NaN \<Rightarrow> 0 | NInf \<Rightarrow> - 1 | Fin a \<Rightarrow> sgn \<lfloor>sgn a\<rfloor> | PInf \<Rightarrow> 1)"

definition js_inf :: "int \<Rightarrow> jsnum" where
  "js_inf s = (if s = 0 then NaN else if 0 < s then PInf else NInf)"

definition js_mul :: "jsnum \<Rightarrow> jsnum \<Rightarrow> jsnum" where
  "js_mul x y = (if x = NaN \<or> y = NaN then NaN else
     (case (x, y) of (Fin a, Fin b) \<Rightarrow> round_double (a * b)
      | _ \<Rightarrow> js_inf (js_sgn x * js_sgn y)))"

text \<open>Division; a zero divisor is taken as \<open>+0\<close> (the modelled code divides by lengths and by 2).\<close>

definition js_div :: "jsnum \<Rightarrow> jsnum \<Rightarrow> jsnum" where
  "js_div x y = (if x = NaN \<or> y = NaN then NaN else
     (case (x, y) of
        (Fin a, Fin b) \<Rightarrow> (if b = 0 then js_inf (js_sgn x) else round_double (a / b))
      | (Fin a, _) \<Rightarrow> Fin 0
      | (_, Fin b) \<Rightarrow> js_inf (js_sgn x * (if b < 0 then - 1 else 1))
      | _ \<Rightarrow> NaN))"

definition js_lt :: "jsnum \<Rightarrow> jsnum \<Rightarrow> bool" where
  "js_lt x y = (case (x, y) of
       (NaN, _) \<Rightarrow> False | (_, NaN) \<Rightarrow> False
     | (Fin a, Fin b) \<Rightarrow> a < b
     | (NInf, NInf) \<Rightarrow> False | (NInf, _) \<Rightarrow> True
     | (_, NInf) \<Rightarrow> False
     | (PInf, _) \<Rightarrow> False | (_, PInf) \<Rightarrow> True)"

definition js_le :: "jsnum \<Rightarrow> jsnum \<Rightarrow> bool" where
  "js_le x y = (x \<noteq> NaN \<and> y \<noteq> NaN \<and> \<not> js_lt y x)"

text \<open>\<open>Math.min(...xs)\<close> and \<open>Math.max(...xs)\<close>: \<open>NaN\<close> if an argument is, the infinities when there is none.\<close>

definition js_min2 :: "jsnum \<Rightarrow> jsnum \<Rightarrow> jsnum" where
  "js_min2 a b = (if a = NaN \<or> b = NaN then NaN else if js_lt b a then b else a)"

definition js_max2 :: "jsnum \<Rightarrow> jsnum \<Rightarrow> jsnum" where
  "js_max2 a b = (if a = NaN \<or> b = NaN then NaN else if js_lt a b then b else a)"

definition Math_min :: "jsnum list \<Rightarrow> jsnum" where
  "Math_min xs = foldl js_min2 PInf xs"

definition Math_max :: "jsnum list \<Rightarrow> jsnum" where
  "Math_max xs = foldl js_max2 NInf xs"

text \<open>\<open>Math.pow(x, 2)\<close> is taken as the correctly rounded square.\<close>

definition Math_pow2 :: "jsnum \<Rightarrow> jsnum" where
  "Math_pow2 x = js_mul x x"

text \<open>The integer square root, by halving the number of digits.\<close>

function isqrt :: "int \<Rightarrow> int" where
  "isqrt n = (if n < 2 then max n 0 else
     (let r = 2 * isqrt (n div 4) in if (r + 1) * (r + 1) \<le> n then r + 1 else r))"
  by auto
termination
  by (relation "measure nat") auto

declare isqrt.simps [simp del]

text \<open>\<open>Math.sqrt\<close>: the correctly rounded square root, \<open>NaN\<close> below zero.\<close>

definition Math_sqrt :: "jsnum \<Rightarrow> jsnum" where
  "Math_sqrt x = (case x of
       NaN \<Rightarrow> NaN | NInf \<Rightarrow> NaN | PInf \<Rightarrow> PInf
     | Fin q \<Rightarrow> (if q < 0 then NaN else if q = 0 then Fin 0 else
         (let e = max (flog2 q div 2) (- 1022); u = pow2 (e - 52); t = q / (u * u);
              n = isqrt \<lfloor>t\<rfloor>; h = (of_int n + 1 / 2) * (of_int n + 1 / 2);
              m = (if t < h then n else if h < t then n + 1 else if even n then n else n + 1)
          in Fin (of_int m * u))))"


section \<open>Values and conversions\<close>

text \<open>
  A cell of a parsed sheet is a loosely typed scalar. A row is the plain object the sheet
  parser builds for one line: its own properties map column names to cells. A plain object
  also inherits the members of \<open>Object.prototype\<close>, all of them built-in functions except
  \<open>__proto__\<close>, which is the prototype object itself: \<open>Inherited n\<close> is the member named
  \<open>n\<close>. Reading a property the object does not have gives the inherited member of that
  name, or \<open>undefined\<close> when there is none. Strings are sequences of bytes (UTF-8).
\<close>

datatype jsval = Undefined | Null | Bool bool | Num jsnum | Str string | Inherited string

type_synonym row = "(string \<times> jsval) list"

definition Object_prototype_names :: "string list" where
  "Object_prototype_names =
     [''constructor'', ''__defineGetter__'', ''__defineSetter__'', ''hasOwnProperty'',
      ''__lookupGetter__'', ''__lookupSetter__'', ''isPrototypeOf'', ''propertyIsEnumerable'',
      ''toString'', ''valueOf'', ''__proto__'', ''toLocaleString'']"

definition cell :: "row \<Rightarrow> string \<Rightarrow> jsval" where
  "cell r c = (case map_of r c of
       Some v \<Rightarrow> v
     | None \<Rightarrow> if c \<in> set Object_prototype_names then Inherited c else Undefined)"

definition truthy :: "jsval \<Rightarrow> bool" where
  "truthy v = (case v of Undefined \<Rightarrow> False | Null \<Rightarrow> False | Bool b \<Rightarrow> b
     | Num x \<Rightarrow> x \<noteq> NaN \<and> x \<noteq> Fin 0 | Str s \<Rightarrow> s \<noteq> [] | Inherited n \<Rightarrow> True)"

text \<open>The operator \<open>a || b\<close>.\<close>

definition js_or :: "jsval \<Rightarrow> jsval \<Rightarrow> jsval" where
  "js_or a b = (if truthy a then a else b)"

subsection \<open>\<open>Number(value)\<close>\<close>

definition pow10 :: "int \<Rightarrow> rat" where
  "pow10 k = (if 0 \<le> k then of_int (10 ^ nat k) else 1 / of_int (10 ^ nat (- k)))"

definition is_digit :: "char \<Rightarrow> bool" where
  "is_digit c = (c \<in> set ''0123456789'')"

definition digit_val :: "char \<Rightarrow> int" where
  "digit_val c = (if is_digit c then int (of_char c) - 48
     else if c \<in> set ''abcdef'' then int (of_char c) - 87 else int (of_char c) - 55)"

definition digits_val :: "int \<Rightarrow> string \<Rightarrow> int" where
  "digits_val b s = foldl (\<lambda>a c. b * a + digit_val c) 0 s"

text \<open>
  White space and line terminators of the language, as UTF-8: TAB, LF, VT, FF, CR, SP,
  U+00A0, U+1680, U+2000 to U+200A, U+2028, U+2029, U+202F, U+205F, U+3000, U+FEFF.
\<close>

definition StrWhiteSpaceChar :: "string list" where
  "StrWhiteSpaceChar =
     map (\<lambda>c. [c]) [CHR 0x09, CHR 0x0A, CHR 0x0B, CHR 0x0C, CHR 0x0D, CHR 0x20] @
     [[CHR 0xC2, CHR 0xA0], [CHR 0xE1, CHR 0x9A, CHR 0x80]] @
     map (\<lambda>c. [CHR 0xE2, CHR 0x80, c])
       [CHR 0x80, CHR 0x81, CHR 0x82, CHR 0x83, CHR 0x84, CHR 0x85, CHR 0x86, CHR 0x87,
        CHR 0x88, CHR 0x89, CHR 0x8A, CHR 0xA8, CHR 0xA9, CHR 0xAF] @
     [[CHR 0xE2, CHR 0x81, CHR 0x9F], [CHR 0xE3, CHR 0x80, CHR 0x80],
      [CHR 0xEF, CHR 0xBB, CHR 0xBF]]"

fun ws_prefix :: "string list \<Rightarrow> string \<Rightarrow> nat" where
  "ws_prefix [] s = 0"
| "ws_prefix (w # ws) s = (if take (length w) s = w then length w else ws_prefix ws s)"

fun lstrip :: "string list \<Rightarrow> string \<Rightarrow> string" where
  "lstrip ws [] = []"
| "lstrip ws (c # cs) =
     (let n = ws_prefix ws (c # cs) in if n = 0 then c # cs else lstrip ws (drop (n - 1) cs))"

definition trim :: "string \<Rightarrow> string" where
  "trim s = rev (lstrip (map rev StrWhiteSpaceChar) (rev (lstrip StrWhiteSpaceChar s)))"

definition ExponentPart :: "string \<Rightarrow> int option" where
  "ExponentPart s = (case s of [] \<Rightarrow> Some 0
     | c # t \<Rightarrow>
        if c = CHR ''e'' \<or> c = CHR ''E'' then
          (let sg = (if take 1 t = ''-'' then - 1 else 1);
               d = (if take 1 t = ''-'' \<or> take 1 t = ''+'' then drop 1 t else t)
           in if d \<noteq> [] \<and> list_all is_digit d then Some (sg * digits_val 10 d) else None)
        else None)"

definition StrUnsignedDecimalLiteral :: "string \<Rightarrow> jsnum option" where
  "StrUnsignedDecimalLiteral s = (if s = ''Infinity'' then Some PInf else
     (let ip = takeWhile is_digit s; r1 = dropWhile is_digit s;
          dot = (take 1 r1 = ''.'');
          fp = (if dot then takeWhile is_digit (drop 1 r1) else []);
          r2 = (if dot then dropWhile is_digit (drop 1 r1) else r1)
      in if ip = [] \<and> fp = [] then None
         else (case ExponentPart r2 of None \<Rightarrow> None
           | Some e \<Rightarrow> Some (round_double
               (of_int (digits_val 10 (ip @ fp)) * pow10 (e - int (length fp)))))))"

definition StrDecimalLiteral :: "string \<Rightarrow> jsnum option" where
  "StrDecimalLiteral s =
     (if take 1 s = ''+'' then StrUnsignedDecimalLiteral (drop 1 s)
      else if take 1 s = ''-'' then map_option js_neg (StrUnsignedDecimalLiteral (drop 1 s))
      else StrUnsignedDecimalLiteral s)"

definition NonDecimalIntegerLiteral :: "string \<Rightarrow> jsnum option" where
  "NonDecimalIntegerLiteral s =
     (let p = take 2 s; d = drop 2 s;
          lit = (\<lambda>b ds. if d \<noteq> [] \<and> list_all (\<lambda>c. c \<in> set ds) d
                         then Some (round_double (of_int (digits_val b d))) else None)
      in if p = ''0x'' \<or> p = ''0X'' then lit 16 ''0123456789abcdefABCDEF''
         else if p = ''0o'' \<or> p = ''0O'' then lit 8 ''01234567''
         else if p = ''0b'' \<or> p = ''0B'' then lit 2 ''01''
         else None)"

definition StringToNumber :: "string \<Rightarrow> jsnum" where
  "StringToNumber s = (let t = trim s in
     if t = [] then Fin 0
     else (case NonDecimalIntegerLiteral t of Some v \<Rightarrow> v
       | None \<Rightarrow> (case StrDecimalLiteral t of Some v \<Rightarrow> v | None \<Rightarrow> NaN)))"

definition Number :: "jsval \<Rightarrow> jsnum" where
  "Number v = (case v of Undefined \<Rightarrow> NaN | Null \<Rightarrow> Fin 0
     | Bool b \<Rightarrow> (if b then Fin 1 else Fin 0) | Num x \<Rightarrow> x | Str s \<Rightarrow> StringToNumber s
     | Inherited n \<Rightarrow> NaN)"

subsection \<open>\<open>String(value)\<close>\<close>

function dlen :: "int \<Rightarrow> int" where
  "dlen n = (if n \<le> 0 then 0 else 1 + dlen (n div 10))"
  by auto
termination
  by (relation "measure nat") auto

declare dlen.simps [simp del]

definition flog10 :: "rat \<Rightarrow> int" where
  "flog10 a = (if 1 \<le> a then dlen \<lfloor>a\<rfloor> - 1 else - dlen (\<lceil>1 / a\<rceil> - 1))"

function dec_digits :: "int \<Rightarrow> string" where
  "dec_digits n = (if n < 10 then [''0123456789'' ! nat n]
     else dec_digits (n div 10) @ [''0123456789'' ! nat (n mod 10)])"
  by auto
termination
  by (relation "measure nat") auto

declare dec_digits.simps [simp del]

text \<open>
  The digits of a positive double: the least number \<open>k\<close> of digits for which some
  \<open>s\<close> of \<open>k\<close> digits has \<open>s * 10 ^ (n - k)\<close> round to the number, and of those the closest.
\<close>

definition digit_candidate :: "rat \<Rightarrow> int \<Rightarrow> int \<Rightarrow> int option" where
  "digit_candidate q n0 k =
     (let sc = pow10 (n0 - k); lo = \<lfloor>q / sc\<rfloor>;
          ok = (\<lambda>s. round_double (of_int s * sc) = Fin q);
          dist = (\<lambda>s. \<bar>of_int s * sc - q\<bar>)
      in if ok lo \<and> ok (lo + 1) then
           (if dist lo < dist (lo + 1) \<or> (dist lo = dist (lo + 1) \<and> even lo)
            then Some lo else Some (lo + 1))
         else if ok lo then Some lo
         else if ok (lo + 1) then Some (lo + 1)
         else None)"

fun shortest_digits :: "rat \<Rightarrow> int \<Rightarrow> int list \<Rightarrow> int \<times> int" where
  "shortest_digits q n0 [] = (\<lfloor>q / pow10 (n0 - 17)\<rfloor>, 17)"
| "shortest_digits q n0 (k # ks) =
     (case digit_candidate q n0 k of Some s \<Rightarrow> (s, k) | None \<Rightarrow> shortest_digits q n0 ks)"

definition NumberToString_pos :: "rat \<Rightarrow> string" where
  "NumberToString_pos q =
     (let n0 = flog10 q + 1;
          (s, k0) = shortest_digits q n0 [1, 2, 3, 4, 5, 6, 7, 8, 9, 10, 11, 12, 13, 14, 15, 16, 17];
          ds = rev (dropWhile (\<lambda>c. c = CHR ''0'') (rev (dec_digits s)));
          k = int (length ds);
          n = (if int (length (dec_digits s)) = k0 then n0 else n0 + 1);
          ex = (if 0 \<le> n - 1 then ''e+'' else ''e-'') @ dec_digits \<bar>n - 1\<bar>
      in if k \<le> n \<and> n \<le> 21 then ds @ replicate (nat (n - k)) (CHR ''0'')
         else if 0 < n \<and> n \<le> 21 then take (nat n) ds @ ''.'' @ drop (nat n) ds
         else if - 6 < n \<and> n \<le> 0 then ''0.'' @ replicate (nat (- n)) (CHR ''0'') @ ds
         else if k = 1 then ds @ ex
         else take 1 ds @ ''.'' @ drop 1 ds @ ex)"

definition NumberToString :: "jsnum \<Rightarrow> string" where
  "NumberToString x = (case x of NaN \<Rightarrow> ''NaN'' | PInf \<Rightarrow> ''Infinity'' | NInf \<Rightarrow> ''-Infinity''
     | Fin q \<Rightarrow> (if q = 0 then ''0'' else if q < 0 then ''-'' @ NumberToString_pos (- q)
                 else NumberToString_pos q))"

text \<open>
  The string of a built-in function is its native source text, here in the form the V8
  engine prints; the member \<open>constructor\<close> is the function \<open>Object\<close>.
\<close>

definition String :: "jsval \<Rightarrow> string" where
  "String v = (case v of Undefined \<Rightarrow> ''undefined'' | Null \<Rightarrow> ''null''
     | Bool b \<Rightarrow> (if b then ''true'' else ''false'') | Num x \<Rightarrow> NumberToString x | Str s \<Rightarrow> s
     | Inherited n \<Rightarrow>
         (if n = ''__proto__'' then ''[object Object]''
          else ''function '' @ (if n = ''constructor'' then ''Object'' else n) @
               ''() { [native code] }''))"


text \<open>
  The operators \<open>a + b\<close> and \<open>a / b\<close> on values; \<open>+\<close> joins strings when an operand is a
  string or an object (whose primitive is its string).
\<close>

definition is_text :: "jsval \<Rightarrow> bool" where
  "is_text v = (case v of Str s \<Rightarrow> True | Inherited n \<Rightarrow> True | _ \<Rightarrow> False)"

definition js_plus :: "jsval \<Rightarrow> jsval \<Rightarrow> jsval" where
  "js_plus a b = (if is_text a \<or> is_text b then Str (String a @ String b)
     else Num (js_add (Number a) (Number b)))"

definition js_divide :: "jsval \<Rightarrow> jsval \<Rightarrow> jsval" where
  "js_divide a b = Num (js_div (Number a) (Number b))"

section \<open>Arrays\<close>

text \<open>
  Reading an array of numbers at a number: the element when the number is an integer
  within the array, \<open>undefined\<close> otherwise.
\<close>

definition array_get :: "jsnum list \<Rightarrow> rat \<Rightarrow> jsval" where
  "array_get xs i = (if of_int \<lfloor>i\<rfloor> = i \<and> 0 \<le> i \<and> \<lfloor>i\<rfloor> < int (length xs)
     then Num (xs ! nat \<lfloor>i\<rfloor>) else Undefined)"

text \<open>
  \<open>Array.prototype.sort(comparefn)\<close> is stable; \<open>x\<close> is placed after \<open>y\<close> when
  \<open>comparefn(x, y) > 0\<close>, and a \<open>NaN\<close> result counts as \<open>0\<close>.
\<close>

fun insert_by :: "('a \<Rightarrow> 'a \<Rightarrow> bool) \<Rightarrow> 'a \<Rightarrow> 'a list \<Rightarrow> 'a list" where
  "insert_by gt x [] = [x]"
| "insert_by gt x (y # ys) = (if gt x y then y # insert_by gt x ys else x # y # ys)"

definition Array_sort :: "('a \<Rightarrow> 'a \<Rightarrow> jsnum) \<Rightarrow> 'a list \<Rightarrow> 'a list" where
  "Array_sort comparefn xs = foldr (insert_by (\<lambda>x y. js_lt (Fin 0) (comparefn x y))) xs []"

section \<open>AnalysisPanel: column classification and column statistics\<close>

type_synonym dataset = "row list"

definition typeof_number :: "jsval \<Rightarrow> bool" where
  "typeof_number v = (case v of Num _ \<Rightarrow> True | _ \<Rightarrow> False)"

definition isNumericColumn :: "dataset \<Rightarrow> string \<Rightarrow> bool" where
  "isNumericColumn data column =
     (if data = [] then False
      else list_all (\<lambda>row. let value = cell row column in
             value = Undefined \<or> value = Null \<or> value = Str [] \<or>
             (typeof_number value \<or> \<not> isNaN (Number value)))
           (take 5 data))"

record numeric_stats =
  ns_count :: nat
  ns_emptyCount :: nat
  ns_min :: jsnum
  ns_max :: jsnum
  ns_range :: jsnum
  ns_sum :: jsnum
  ns_mean :: jsnum
  ns_median :: jsval
  ns_stdDev :: jsnum
  ns_q1 :: jsval
  ns_q3 :: jsval

record categorical_stats =
  cs_count :: nat
  cs_emptyCount :: nat
  cs_uniqueCount :: nat
  cs_mode :: string
  cs_modeFrequency :: nat
  cs_frequencies :: "(string \<times> nat) list"

datatype stats = Numeric numeric_stats | Categorical categorical_stats

definition validValues :: "dataset \<Rightarrow> string \<Rightarrow> jsnum list" where
  "validValues data selectedColumn =
     filter (\<lambda>val. \<not> isNaN val) (map (\<lambda>row. Number (cell row selectedColumn)) data)"

text \<open>
  The indices the numeric branch reads, for an array of length \<open>n\<close>. A length is an
  integer below \<open>2 ^ 32\<close>, and \<open>0.25\<close> and \<open>0.75\<close> are doubles, so the quotient by \<open>2\<close> and
  the two products are exact and are written as rational arithmetic.
\<close>

definition median_lo_index :: "nat \<Rightarrow> rat" where
  "median_lo_index n = of_nat n / 2 - 1"

definition median_hi_index :: "nat \<Rightarrow> rat" where
  "median_hi_index n = of_nat n / 2"

definition median_mid_index :: "nat \<Rightarrow> rat" where
  "median_mid_index n = of_int \<lfloor>(of_nat n :: rat) / 2\<rfloor>"

definition q1_index :: "nat \<Rightarrow> rat" where
  "q1_index n = of_int \<lfloor>(of_nat n :: rat) * (1 / 4)\<rfloor>"

definition q3_index :: "nat \<Rightarrow> rat" where
  "q3_index n = of_int \<lfloor>(of_nat n :: rat) * (3 / 4)\<rfloor>"

definition median_of :: "jsnum list \<Rightarrow> jsval" where
  "median_of sortedValues = (let n = length sortedValues in
     if n mod 2 = 0
     then js_divide (js_plus (array_get sortedValues (median_lo_index n))
                             (array_get sortedValues (median_hi_index n))) (Num (Fin 2))
     else array_get sortedValues (median_mid_index n))"

text \<open>
  The numeric branch. The language puts no bound on the arguments of \<open>Math.min(...xs)\<close>; an
  engine refuses a call with more arguments than its stack holds (some hundred thousand
  values), which is not modelled: the statistics are those of a column the engine accepts.
\<close>

definition numericStats :: "dataset \<Rightarrow> string \<Rightarrow> numeric_stats option" where
  "numericStats data selectedColumn =
     (let vs = validValues data selectedColumn in
      if length vs = 0 then None
      else
        (let sum = foldl js_add (Fin 0) vs;
             mean = js_div sum (Fin (of_nat (length vs)));
             sortedValues = Array_sort js_sub vs;
             median = median_of sortedValues;
             squaredDiffs = map (\<lambda>val. Math_pow2 (js_sub val mean)) vs;
             variance = js_div (foldl js_add (Fin 0) squaredDiffs) (Fin (of_nat (length vs)));
             stdDev = Math_sqrt variance;
             mn = Math_min vs;
             mx = Math_max vs;
             range = js_sub mx mn;
             emptyCount = length data - length vs
         in Some \<lparr>ns_count = length vs, ns_emptyCount = emptyCount, ns_min = mn, ns_max = mx,
                  ns_range = range, ns_sum = sum, ns_mean = mean, ns_median = median,
                  ns_stdDev = stdDev,
                  ns_q1 = array_get sortedValues (q1_index (length sortedValues)),
                  ns_q3 = array_get sortedValues (q3_index (length sortedValues))\<rparr>))"

text \<open>
  The \<open>Map\<close> of the categorical branch keeps its keys in insertion order; \<open>set\<close> on a key
  that is present keeps the key's place.
\<close>

fun Map_set :: "('k \<times> 'v) list \<Rightarrow> 'k \<Rightarrow> 'v \<Rightarrow> ('k \<times> 'v) list" where
  "Map_set [] k v = [(k, v)]"
| "Map_set ((k', v') # m) k v = (if k' = k then (k, v) # m else (k', v') # Map_set m k v)"

definition count_row :: "string \<Rightarrow> (string \<times> nat) list \<times> nat \<Rightarrow> row \<Rightarrow> (string \<times> nat) list \<times> nat" where
  "count_row selectedColumn st row =
     (let valueMap = fst st; emptyCount = snd st; value = cell row selectedColumn in
      if value = Undefined \<or> value = Null \<or> value = Str [] then (valueMap, emptyCount + 1)
      else (let strValue = String value in
        (Map_set valueMap strValue
           ((case map_of valueMap strValue of None \<Rightarrow> 0 | Some n \<Rightarrow> n) + 1), emptyCount)))"

definition find_mode :: "(string \<times> nat) list \<Rightarrow> string \<times> nat" where
  "find_mode valueMap =
     foldl (\<lambda>(mode, modeFrequency) (value, freq).
              if freq > modeFrequency then (value, freq) else (mode, modeFrequency))
       ([], 0) valueMap"

definition categoricalStats :: "dataset \<Rightarrow> string \<Rightarrow> categorical_stats" where
  "categoricalStats data selectedColumn =
     (let st = foldl (count_row selectedColumn) ([], 0) data;
          valueMap = fst st; emptyCount = snd st;
          frequencies = take 10
            (Array_sort (\<lambda>a b. js_sub (Fin (of_nat (snd b))) (Fin (of_nat (snd a)))) valueMap);
          uniqueCount = length valueMap;
          m = find_mode valueMap
      in \<lparr>cs_count = length data - emptyCount, cs_emptyCount = emptyCount,
          cs_uniqueCount = uniqueCount, cs_mode = fst m, cs_modeFrequency = snd m,
          cs_frequencies = frequencies\<rparr>)"

definition columnStats :: "dataset \<Rightarrow> string \<Rightarrow> stats option" where
  "columnStats data selectedColumn =
     (if data = [] \<or> selectedColumn = [] then None
      else if isNumericColumn data selectedColumn
        then map_option Numeric (numericStats data selectedColumn)
        else Some (Categorical (categoricalStats data selectedColumn)))"

text \<open>An index reads inside an array of length \<open>n\<close> when it is an integer from \<open>0\<close> to \<open>n - 1\<close>.\<close>

definition index_ok :: "nat \<Rightarrow> rat \<Rightarrow> bool" where
  "index_ok n i = (of_int \<lfloor>i\<rfloor> = i \<and> 0 \<le> i \<and> i \<le> of_nat n - 1)"

section \<open>ChartViewer: chart aggregation\<close>

text \<open>
  An object built by the code is the list of its own properties in creation order;
  assigning to a property that is present keeps the property's place, and reading is as
  for a row. Assigning a number or a string to \<open>__proto__\<close> on an object that has no own
  property of that name runs the setter inherited from \<open>Object.prototype\<close>, which ignores
  such a value: the object is unchanged. (The order of the properties inside one output
  row is not observed by the charts, which read a row by property name, and is left in
  creation order.)
\<close>

type_synonym object = "(string \<times> jsval) list"

definition obj_get :: "object \<Rightarrow> string \<Rightarrow> jsval" where
  "obj_get obj k = cell obj k"

definition obj_set :: "object \<Rightarrow> string \<Rightarrow> jsval \<Rightarrow> object" where
  "obj_set obj k v =
     (if k = ''__proto__'' \<and> map_of obj k = None then obj else Map_set obj k v)"

text \<open>
  \<open>Object.values\<close> lists the own properties whose names are array indices (canonical
  decimal integers below \<open>2 ^ 32 - 1\<close>) in ascending numeric order, then the other
  properties in creation order.
\<close>

definition is_array_index :: "string \<Rightarrow> bool" where
  "is_array_index k = (k \<noteq> [] \<and> list_all is_digit k \<and> (k = ''0'' \<or> hd k \<noteq> CHR ''0'') \<and>
     digits_val 10 k < 4294967295)"

definition own_keys :: "string list \<Rightarrow> string list" where
  "own_keys ks = sort_key (digits_val 10) (filter is_array_index ks) @
     filter (\<lambda>k. \<not> is_array_index k) ks"

definition Object_values :: "(string \<times> 'v) list \<Rightarrow> 'v list" where
  "Object_values obj = map snd
     (sort_key (\<lambda>p. digits_val 10 (fst p)) (filter (\<lambda>p. is_array_index (fst p)) obj) @
      filter (\<lambda>p. \<not> is_array_index (fst p)) obj)"

text \<open>The group of a row: \<open>String(item[xAxisField] || 'undefined')\<close>.\<close>

definition chart_key :: "string \<Rightarrow> row \<Rightarrow> string" where
  "chart_key xAxisField item = String (js_or (cell item xAxisField) (Str ''undefined''))"

text \<open>The term a row adds for a field: \<open>Number(item[field]) || 0\<close>.\<close>

definition y_term :: "row \<Rightarrow> string \<Rightarrow> jsnum" where
  "y_term item field = Number (js_or (Num (Number (cell item field))) (Num (Fin 0)))"

definition init_fields :: "string list \<Rightarrow> object \<Rightarrow> object" where
  "init_fields yAxisFields obj = foldl (\<lambda>obj field. obj_set obj field (Num (Fin 0))) obj yAxisFields"

definition add_fields :: "string list \<Rightarrow> object \<Rightarrow> row \<Rightarrow> object" where
  "add_fields yAxisFields obj item =
     foldl (\<lambda>obj field. obj_set obj field (js_plus (obj_get obj field) (Num (y_term item field))))
       obj yAxisFields"

text \<open>
  One round of the \<open>forEach\<close> over the data, as far as \<open>groupedData\<close> goes.
  \<open>groupedData[xValue]\<close> is falsy only when \<open>xValue\<close> is neither an own property nor a member
  of \<open>Object.prototype\<close>; when it is an inherited member, no group is created and the
  additions are made on that member, outside \<open>groupedData\<close>.
\<close>

definition group_step ::
  "(string \<Rightarrow> object) \<Rightarrow> (object \<Rightarrow> row \<Rightarrow> object) \<Rightarrow> string \<Rightarrow>
   (string \<times> object) list \<Rightarrow> row \<Rightarrow> (string \<times> object) list" where
  "group_step new_group add xAxisField groupedData item =
     (let xValue = chart_key xAxisField item;
          groupedData' =
            (if map_of groupedData xValue = None \<and> xValue \<notin> set Object_prototype_names
             then Map_set groupedData xValue (new_group xValue) else groupedData)
      in case map_of groupedData' xValue of
           None \<Rightarrow> groupedData'
         | Some obj \<Rightarrow> Map_set groupedData' xValue (add obj item))"

text \<open>
  The components are module code, hence strict: \<open>member[field] += value\<close> on an inherited
  member throws a \<open>TypeError\<close> when the member is a function and the field is one of its
  read-only properties \<open>length\<close> and \<open>name\<close> (and \<open>prototype\<close>, for \<open>Object\<close>) or one of
  the poisoned properties \<open>caller\<close> and \<open>arguments\<close>. With the key \<open>constructor\<close> and the
  field \<open>values\<close> the addition replaces \<open>Object.values\<close> by a string, and the call of
  \<open>Object.values\<close> that ends the bar and line aggregation throws a \<open>TypeError\<close>. Any other
  field is written on the member and \<open>groupedData\<close> is left as it is.

  What is written on an inherited member stays there. The model follows \<open>groupedData\<close> and
  the exceptions above; it does not follow the later reads of a built-in property that
  such a write has replaced (which happen only when a key names a member of
  \<open>Object.prototype\<close> and a field of \<open>yAxisFields\<close> names a built-in property as well), and
  the theorems on the bar and line aggregation say which inputs they cover. The pie
  aggregation writes the one property \<open>value\<close>, which replaces no built-in property.
\<close>

datatype error = TypeError

definition member_throws :: "string \<Rightarrow> string \<Rightarrow> bool" where
  "member_throws member field =
     (member \<noteq> ''__proto__'' \<and>
      (field \<in> set [''length'', ''name'', ''caller'', ''arguments''] \<or>
       (member = ''constructor'' \<and> (field = ''prototype'' \<or> field = ''values''))))"

definition group_item ::
  "(string \<Rightarrow> bool) \<Rightarrow> (string \<Rightarrow> object) \<Rightarrow> (object \<Rightarrow> row \<Rightarrow> object) \<Rightarrow> string \<Rightarrow>
   (string \<times> object) list \<Rightarrow> row \<Rightarrow> error + (string \<times> object) list" where
  "group_item throws new_group add xAxisField groupedData item =
     (let xValue = chart_key xAxisField item in
      if map_of groupedData xValue = None \<and> xValue \<in> set Object_prototype_names \<and> throws xValue
      then Inl TypeError
      else Inr (group_step new_group add xAxisField groupedData item))"

text \<open>\<open>forEach\<close> with a callback that may throw: the first exception ends the loop.\<close>

fun forEach :: "('s \<Rightarrow> 'a \<Rightarrow> error + 's) \<Rightarrow> 's \<Rightarrow> 'a list \<Rightarrow> error + 's" where
  "forEach f s [] = Inr s"
| "forEach f s (x # xs) = (case f s x of Inl e \<Rightarrow> Inl e | Inr s' \<Rightarrow> forEach f s' xs)"

definition bar_item ::
  "string \<Rightarrow> string list \<Rightarrow> (string \<times> object) list \<Rightarrow> row \<Rightarrow> error + (string \<times> object) list" where
  "bar_item xAxisField yAxisFields =
     group_item (\<lambda>member. list_ex (member_throws member) yAxisFields)
       (\<lambda>xValue. init_fields yAxisFields [(xAxisField, Str xValue)])
       (add_fields yAxisFields) xAxisField"

definition pie_item ::
  "string \<Rightarrow> string \<Rightarrow> (string \<times> object) list \<Rightarrow> row \<Rightarrow> error + (string \<times> object) list" where
  "pie_item xAxisField yField =
     group_item (\<lambda>member. member_throws member ''value'')
       (\<lambda>xValue. [(''name'', Str xValue), (''value'', Num (Fin 0))])
       (\<lambda>obj item. Map_set obj ''value'' (js_plus (obj_get obj ''value'') (Num (y_term item yField))))
       xAxisField"

definition chartData :: "dataset \<Rightarrow> string \<Rightarrow> string list \<Rightarrow> string \<Rightarrow> error + object list" where
  "chartData data xAxisField yAxisFields chartType =
     (if data = [] \<or> xAxisField = [] \<or> yAxisFields = [] then Inr []
      else if chartType = ''bar'' \<or> chartType = ''line''
        then map_sum id Object_values (forEach (bar_item xAxisField yAxisFields) [] data)
      else if chartType = ''pie''
        then map_sum id Object_values (forEach (pie_item xAxisField (hd yAxisFields)) [] data)
      else Inr [])"

section \<open>The classification as the specification words it\<close>

text \<open>
  A value is empty when it is absent (the row has no mapping for the column), null or the
  blank string; it parses as a number when \<open>Number\<close> of it is not \<open>NaN\<close>. The sample is the
  first \<open>min(5, rowCount)\<close> rows.
\<close>

definition is_empty_value :: "jsval \<Rightarrow> bool" where
  "is_empty_value v = (v = Undefined \<or> v = Null \<or> v = Str [])"

definition parses_as_number :: "jsval \<Rightarrow> bool" where
  "parses_as_number v = (\<not> isNaN (Number v))"

definition spec_value_ok :: "row \<Rightarrow> string \<Rightarrow> bool" where
  "spec_value_ok row column = (case map_of row column of
       None \<Rightarrow> True
     | Some v \<Rightarrow> is_empty_value v \<or> parses_as_number v)"

definition sample :: "dataset \<Rightarrow> dataset" where
  "sample data = take (min 5 (length data)) data"

definition spec_numeric :: "dataset \<Rightarrow> string \<Rightarrow> bool" where
  "spec_numeric data column = list_all (\<lambda>row. spec_value_ok row column) (sample data)"

section \<open>Groups, their order and their sums, as the specification words them\<close>

text \<open>The distinct elements of a list, each at the place where it is first seen.\<close>

fun first_seen :: "'a list \<Rightarrow> 'a list" where
  "first_seen [] = []"
| "first_seen (k # ks) = k # removeAll k (first_seen ks)"

text \<open>The rows of a group, in the order of the dataset.\<close>

definition group_rows :: "string \<Rightarrow> dataset \<Rightarrow> string \<Rightarrow> dataset" where
  "group_rows xAxisField data k = filter (\<lambda>item. chart_key xAxisField item = k) data"

text \<open>
  The terms one row adds to the sum of a field: one for each time the field is listed
  (the selection of the component lists a field once).
\<close>

definition field_terms :: "string list \<Rightarrow> string \<Rightarrow> row \<Rightarrow> jsnum list" where
  "field_terms yAxisFields field item = replicate (count_list yAxisFields field) (y_term item field)"

definition group_sum :: "string list \<Rightarrow> string \<Rightarrow> dataset \<Rightarrow> jsnum" where
  "group_sum yAxisFields field rows =
     foldl js_add (Fin 0) (concat (map (field_terms yAxisFields field) rows))"

text \<open>The groups of the rows that get a group of their own, in the order of the dataset.\<close>

definition kept_keys :: "string \<Rightarrow> dataset \<Rightarrow> string list" where
  "kept_keys x data = filter (\<lambda>k. k \<notin> set Object_prototype_names) (map (chart_key x) data)"

text \<open>The object a group has after the loop: the bar or line row, and the pie row.\<close>

definition bar_row :: "string \<Rightarrow> string list \<Rightarrow> dataset \<Rightarrow> string \<Rightarrow> object" where
  "bar_row x ys data k =
     foldl (add_fields ys) (init_fields ys [(x, Str k)]) (group_rows x data k)"


section \<open>Well-formed numbers\<close>

text \<open>
  Every finite double is a multiple of the least subnormal \<open>2 ^ - 1074\<close>. A cell that holds
  a finite number holds a double.
\<close>

definition on_grid :: "rat \<Rightarrow> bool" where
  "on_grid q = (\<exists>m :: int. q = of_int m * pow2 (- 1074))"

definition good_number :: "jsnum \<Rightarrow> bool" where
  "good_number x = (case x of NaN \<Rightarrow> False | Fin q \<Rightarrow> on_grid q | _ \<Rightarrow> True)"

definition double_cell :: "jsval \<Rightarrow> bool" where
  "double_cell v = (case v of Num (Fin q) \<Rightarrow> is_double q | _ \<Rightarrow> True)"

text \<open>A number other than \<open>NaN\<close> whose finite value is a double.\<close>

definition double_number :: "jsnum \<Rightarrow> bool" where
  "double_number x = (case x of NaN \<Rightarrow> False | Fin q \<Rightarrow> is_double q | _ \<Rightarrow> True)"

section \<open>The sort keeps the elements\<close>

lemma set_insert_by: "set (insert_by gt x ys) = insert x (set ys)"
  by (induction ys) auto

lemma mset_insert_by: "mset (insert_by gt x ys) = add_mset x (mset ys)"
  by (induction ys) simp_all

lemma mset_Array_sort: "mset (Array_sort f xs) = mset xs"
  unfolding Array_sort_def by (induction xs) (simp_all add: mset_insert_by)

lemma set_Array_sort: "set (Array_sort f xs) = set xs"
  using mset_Array_sort [of f xs] by (metis set_mset_mset)

lemma length_Array_sort: "length (Array_sort f xs) = length xs"
  using mset_Array_sort [of f xs] by (metis size_mset)

section \<open>Results and sentinels of the statistics\<close>

lemma numericStats_None_iff: "numericStats data c = None \<longleftrightarrow> validValues data c = []"
  by (simp add: numericStats_def Let_def)

text \<open>
  Claim C7: the column statistics give no result exactly when the dataset is empty, no
  column is selected, or, on the numeric path, no value of the column parses; the chart
  aggregation gives the empty sequence when the dataset is empty, the x-field is unset or
  the list of y-fields is empty. In these cases neither throws: the statistics return the
  sentinel and the aggregation returns the empty sequence.
\<close>

theorem no_result_cases:
  "(columnStats data selectedColumn = None \<longleftrightarrow>
      data = [] \<or> selectedColumn = [] \<or>
      (isNumericColumn data selectedColumn \<and> validValues data selectedColumn = [])) \<and>
   (data = [] \<or> xAxisField = [] \<or> yAxisFields = [] \<longrightarrow>
      chartData data xAxisField yAxisFields chartType = Inr [])"
proof -
  have a: "columnStats data selectedColumn = None \<longleftrightarrow>
      data = [] \<or> selectedColumn = [] \<or>
      (isNumericColumn data selectedColumn \<and> validValues data selectedColumn = [])"
    by (simp add: columnStats_def numericStats_None_iff)
  have b: "data = [] \<or> xAxisField = [] \<or> yAxisFields = [] \<longrightarrow>
      chartData data xAxisField yAxisFields chartType = Inr []"
    by (simp add: chartData_def)
  from a b show ?thesis by (rule conjI)
qed

text \<open>
  The claim on a one-row dataset: a column no row has is numeric with no valid value.
\<close>

theorem no_result_cases_witness:
  "isNumericColumn [[(''b'', Str ''x'')]] ''a'' \<and> validValues [[(''b'', Str ''x'')]] ''a'' = [] \<and>
   columnStats [[(''b'', Str ''x'')]] ''a'' = None \<and>
   columnStats [[(''b'', Str ''x'')]] ''b'' \<noteq> None \<and>
   chartData [[(''b'', Str ''x'')]] ''b'' [] ''bar'' = Inr []"
proof -
  have n: "isNumericColumn [[(''b'', Str ''x'')]] ''a''" by code_simp
  have v: "validValues [[(''b'', Str ''x'')]] ''a'' = []" by code_simp
  have m: "\<not> isNumericColumn [[(''b'', Str ''x'')]] ''b''" by code_simp
  have d: "[[(''b'', Str ''x'')]] \<noteq> ([] :: dataset)" "''a'' \<noteq> []" "''b'' \<noteq> []" by simp_all
  note t = no_result_cases [of "[[(''b'', Str ''x'')]]" _ "''b''" "[]" "''bar''"]
  from t [of "''a''"] n v have 1: "columnStats [[(''b'', Str ''x'')]] ''a'' = None" by blast
  from t [of "''b''"] m d have 2: "columnStats [[(''b'', Str ''x'')]] ''b'' \<noteq> None" by blast
  from t [of "''a''"] have 3: "chartData [[(''b'', Str ''x'')]] ''b'' [] ''bar'' = Inr []" by blast
  from n v 1 2 3 show ?thesis by (intro conjI)
qed

section \<open>The categorical branch\<close>















section \<open>The classification\<close>

lemma typeof_number_parses: "v \<noteq> Num NaN \<Longrightarrow> typeof_number v \<Longrightarrow> parses_as_number v"
  by (cases v) (simp_all add: typeof_number_def parses_as_number_def Number_def isNaN_def)

text \<open>
  The classifier agrees with the wording of the specification on a non-empty dataset when
  no sampled row lacks a column that is named as a member of \<open>Object.prototype\<close> (and no
  cell is the number \<open>NaN\<close>).
\<close>

lemma isNumericColumn_iff_spec_numeric:
  assumes "data \<noteq> []" and "\<forall>row\<in>set (sample data). cell row column \<noteq> Num NaN"
    and "\<forall>row\<in>set (sample data). map_of row column = None \<longrightarrow> column \<notin> set Object_prototype_names"
  shows "isNumericColumn data column \<longleftrightarrow> spec_numeric data column"
proof -
  have s: "sample data = take 5 data"
    by (cases "5 \<le> length data") (simp_all add: sample_def min_def)
  have "(let value = cell row column in
           value = Undefined \<or> value = Null \<or> value = Str [] \<or>
           (typeof_number value \<or> \<not> isNaN (Number value))) \<longleftrightarrow> spec_value_ok row column"
    if "row \<in> set (take 5 data)" for row
  proof (cases "map_of row column")
    case None
    with that assms(3) s have "column \<notin> set Object_prototype_names" by auto
    with None show ?thesis by (simp add: cell_def spec_value_ok_def)
  next
    case (Some v)
    with that assms(2) s have "v \<noteq> Num NaN" by (auto simp: cell_def)
    with Some show ?thesis
      using typeof_number_parses [of v]
      by (auto simp: cell_def spec_value_ok_def Let_def is_empty_value_def parses_as_number_def)
  qed
  then have "list_all (\<lambda>row. let value = cell row column in
           value = Undefined \<or> value = Null \<or> value = Str [] \<or>
           (typeof_number value \<or> \<not> isNaN (Number value))) (take 5 data) \<longleftrightarrow>
        list_all (\<lambda>row. spec_value_ok row column) (take 5 data)"
    unfolding list_all_iff by blast
  with assms(1) s show ?thesis by (simp add: isNumericColumn_def spec_numeric_def)
qed

text \<open>
  Claim C2 at a column named \<open>constructor\<close> that the second row lacks: the value is absent,
  so every value of the sample is empty or parses and the column is numeric by the claim;
  the code reads the member \<open>constructor\<close> that the row inherits from \<open>Object.prototype\<close>,
  which is neither \<open>undefined\<close> nor numeric, and classifies the column as categorical (and
  counts the inherited function among its values). The same sheet with the column named
  \<open>a\<close> is numeric.
\<close>

theorem inherited_member_read_as_value:
  "map_of [(''b'', Num (Fin 1))] ''constructor'' = None \<and>
   cell [(''b'', Num (Fin 1))] ''constructor'' = Inherited ''constructor'' \<and>
   spec_numeric [[(''constructor'', Num (Fin 5))], [(''b'', Num (Fin 1))]] ''constructor'' \<and>
   \<not> isNumericColumn [[(''constructor'', Num (Fin 5))], [(''b'', Num (Fin 1))]] ''constructor'' \<and>
   isNumericColumn [[(''a'', Num (Fin 5))], [(''b'', Num (Fin 1))]] ''a'' \<and>
   columnStats [[(''constructor'', Num (Fin 5))], [(''b'', Num (Fin 1))]] ''constructor'' =
     Some (Categorical \<lparr>cs_count = 2, cs_emptyCount = 0, cs_uniqueCount = 2, cs_mode = ''5'',
       cs_modeFrequency = 1,
       cs_frequencies = [(''5'', 1), (''function Object() { [native code] }'', 1)]\<rparr>)"
  by code_simp

section \<open>The indices of the numeric statistics\<close>

lemma q1_index_eq: "q1_index n = of_nat (n div 4)"
proof -
  have "(of_nat n :: rat) * (1 / 4) = of_nat n / of_nat 4" by simp
  then have "\<lfloor>(of_nat n :: rat) * (1 / 4)\<rfloor> = int (n div 4)"
    by (simp only: floor_divide_of_nat_eq)
  then show ?thesis by (simp add: q1_index_def)
qed

lemma q3_index_eq: "q3_index n = of_nat (3 * n div 4)"
proof -
  have "(of_nat n :: rat) * (3 / 4) = of_nat (3 * n) / of_nat 4" by simp
  then have "\<lfloor>(of_nat n :: rat) * (3 / 4)\<rfloor> = int (3 * n div 4)"
    by (simp only: floor_divide_of_nat_eq)
  then show ?thesis by (simp add: q3_index_def)
qed

lemma median_mid_index_eq: "median_mid_index n = of_nat (n div 2)"
proof -
  have "(of_nat n :: rat) / 2 = of_nat n / of_nat 2" by simp
  then have "\<lfloor>(of_nat n :: rat) / 2\<rfloor> = int (n div 2)"
    by (simp only: floor_divide_of_nat_eq)
  then show ?thesis by (simp add: median_mid_index_def)
qed

lemma of_nat_half: "n mod 2 = 0 \<Longrightarrow> (of_nat n :: rat) / 2 = of_nat (n div 2)"
proof -
  assume "n mod 2 = 0"
  then have "n = 2 * (n div 2)" by presburger
  then have "(of_nat n :: rat) = of_nat (2 * (n div 2))" by (rule arg_cong)
  also have "\<dots> = 2 * of_nat (n div 2)" by (simp only: of_nat_mult of_nat_numeral)
  finally show ?thesis by simp
qed

lemma median_hi_index_eq: "n mod 2 = 0 \<Longrightarrow> median_hi_index n = of_nat (n div 2)"
  by (simp only: median_hi_index_def of_nat_half)

lemma median_lo_index_eq: "n mod 2 = 0 \<Longrightarrow> 0 < n \<Longrightarrow> median_lo_index n = of_nat (n div 2 - 1)"
proof -
  assume e: "n mod 2 = 0" and "0 < n"
  then have "1 \<le> n div 2" by presburger
  then have "(of_nat (n div 2 - 1) :: rat) = of_nat (n div 2) - 1" by (simp add: of_nat_diff)
  with e show ?thesis by (simp only: median_lo_index_def of_nat_half)
qed

lemma index_ok_of_nat: "k < n \<Longrightarrow> index_ok n (of_nat k)"
proof -
  assume "k < n"
  then have "(of_nat k :: rat) \<le> of_nat (n - 1)" by simp
  also have "(of_nat (n - 1) :: rat) = of_nat n - 1" using \<open>k < n\<close> by (simp add: of_nat_diff)
  finally show ?thesis by (simp add: index_ok_def)
qed

lemma array_get_of_nat: "k < length xs \<Longrightarrow> array_get xs (of_nat k) = Num (xs ! k)"
  by (simp add: array_get_def)

lemma array_get_index_ok: "index_ok (length xs) i \<Longrightarrow> array_get xs i \<noteq> Undefined"
proof -
  assume a: "index_ok (length xs) i"
  then have lt: "i < of_int (int (length xs))" by (simp add: index_ok_def)
  then have "\<lfloor>i\<rfloor> < int (length xs)" by (simp only: floor_less_iff)
  with a show ?thesis by (simp add: array_get_def index_ok_def)
qed

text \<open>
  Claim C10: for a sorted sequence of length \<open>n \<ge> 1\<close>, every index the numeric statistics
  read is an integer in \<open>[0, n - 1]\<close>: \<open>floor(n / 2)\<close> for odd \<open>n\<close>, \<open>n / 2 - 1\<close> and \<open>n / 2\<close>
  for even \<open>n\<close>, \<open>floor(n * 0.25)\<close> and \<open>floor(n * 0.75)\<close>; so no read of the median, of
  \<open>q1\<close> or of \<open>q3\<close> gives \<open>undefined\<close>.
\<close>

theorem stat_indices_in_range:
  assumes "1 \<le> n"
  shows "index_ok n (q1_index n) \<and> index_ok n (q3_index n) \<and>
         (n mod 2 \<noteq> 0 \<longrightarrow> index_ok n (median_mid_index n)) \<and>
         (n mod 2 = 0 \<longrightarrow> index_ok n (median_lo_index n) \<and> index_ok n (median_hi_index n)) \<and>
         (\<forall>xs. length xs = n \<longrightarrow>
            array_get xs (q1_index n) \<noteq> Undefined \<and> array_get xs (q3_index n) \<noteq> Undefined \<and>
            (n mod 2 \<noteq> 0 \<longrightarrow> array_get xs (median_mid_index n) \<noteq> Undefined) \<and>
            (n mod 2 = 0 \<longrightarrow> array_get xs (median_lo_index n) \<noteq> Undefined \<and>
                              array_get xs (median_hi_index n) \<noteq> Undefined))"
proof -
  from assms have n: "0 < n" by simp
  have "n div 4 < n" using n by simp
  then have q1: "index_ok n (q1_index n)" by (simp only: q1_index_eq index_ok_of_nat)
  have "3 * n div 4 < n" using n by simp
  then have q3: "index_ok n (q3_index n)" by (simp only: q3_index_eq index_ok_of_nat)
  have "n div 2 < n" using n by simp
  then have mid: "index_ok n (median_mid_index n)"
    by (simp only: median_mid_index_eq index_ok_of_nat)
  have hi: "index_ok n (median_hi_index n)" if "n mod 2 = 0"
    using that \<open>n div 2 < n\<close> by (simp only: median_hi_index_eq index_ok_of_nat)
  have lo: "index_ok n (median_lo_index n)" if "n mod 2 = 0"
  proof -
    have "n div 2 - 1 < n" using n by simp
    then show ?thesis using that n by (simp only: median_lo_index_eq index_ok_of_nat)
  qed
  have arr: "array_get xs i \<noteq> Undefined" if "length xs = n" "index_ok n i" for xs i
    using that array_get_index_ok [of xs i] by simp
  show ?thesis
    using q1 q3 mid hi lo arr by metis
qed

text \<open>The claim at length 4.\<close>

theorem stat_indices_in_range_witness:
  "(1::nat) \<le> 4 \<and> index_ok 4 (q1_index 4) \<and> index_ok 4 (q3_index 4)"
proof -
  have h: "(1::nat) \<le> 4" by simp
  from stat_indices_in_range [OF h] have "index_ok 4 (q1_index 4)" "index_ok 4 (q3_index 4)"
    by (rule conjunct1, rule conjunct1 [OF conjunct2])
  with h show ?thesis by (intro conjI)
qed

section \<open>Groups of the chart aggregation\<close>


lemma map_of_Map_set: "map_of (Map_set g k v) = (map_of g)(k \<mapsto> v)"
  by (induction g) (auto simp: fun_eq_iff)

lemma keys_Map_set:
  "map fst (Map_set g k v) = (if k \<in> set (map fst g) then map fst g else map fst g @ [k])"
proof (induction g)
  case Nil
  show ?case by simp
next
  case (Cons p g)
  then show ?case by (cases p) (simp add: image_iff)
qed

lemma map_of_None_keys: "map_of g k = None \<longleftrightarrow> k \<notin> set (map fst g)"
  by (simp add: map_of_eq_None_iff)

lemma group_step_keys_new:
  assumes "chart_key x item \<notin> set Object_prototype_names" "map_of g (chart_key x item) = None"
   "chart_key x item \<notin> set (map fst g)"
  shows "map fst (group_step new add x g item) = map fst g @ [chart_key x item]"
proof -
  let ?k = "chart_key x item"
  have a: "group_step new add x g item =
     Map_set (Map_set g ?k (new ?k)) ?k (add (new ?k) item)"
    using assms(1,2) by (simp add: group_step_def Let_def map_of_Map_set)
  have "map fst (Map_set g ?k (new ?k)) = map fst g @ [?k]"
    using assms(3) by (simp only: keys_Map_set if_False)
  moreover have "?k \<in> set (map fst g @ [?k])" by simp
  ultimately have "map fst (Map_set (Map_set g ?k (new ?k)) ?k (add (new ?k) item)) = map fst g @ [?k]"
    by (simp only: keys_Map_set if_True)
  with a show ?thesis by simp
qed

lemma group_step_keys_old:
  assumes "map_of g (chart_key x item) = Some obj"
  shows "map fst (group_step new add x g item) = map fst g"
proof -
  let ?k = "chart_key x item"
  have a: "group_step new add x g item = Map_set g ?k (add obj item)"
    using assms by (simp add: group_step_def Let_def)
  from assms have "?k \<in> set (map fst g)"
    by (metis map_of_eq_None_iff option.distinct(1) set_map)
  then have "map fst (Map_set g ?k (add obj item)) = map fst g"
    by (simp only: keys_Map_set if_True)
  with a show ?thesis by simp
qed

lemma group_step_keys_proto:
  assumes "map_of g (chart_key x item) = None" "chart_key x item \<in> set Object_prototype_names"
  shows "group_step new add x g item = g"
  using assms by (simp add: group_step_def Let_def)

lemma group_step_keys:
  "map fst (group_step new add x g item) =
    (if chart_key x item \<in> set (map fst g) \<or> chart_key x item \<in> set Object_prototype_names
     then map fst g else map fst g @ [chart_key x item])"
proof (cases "map_of g (chart_key x item)")
  case None
  then have n: "chart_key x item \<notin> set (map fst g)" by (simp add: map_of_None_keys)
  show ?thesis
  proof (cases "chart_key x item \<in> set Object_prototype_names")
    case True
    with group_step_keys_proto [OF None True] show ?thesis by simp
  next
    case False
    with group_step_keys_new [OF False None n] n show ?thesis by simp
  qed
next
  case (Some obj)
  then have "chart_key x item \<in> set (map fst g)"
    by (metis map_of_eq_None_iff option.distinct(1) set_map)
  with group_step_keys_old [OF Some] show ?thesis by simp
qed

lemma group_step_map_of:
  "map_of (group_step new add x g item) j =
    (if j = chart_key x item then
       (case map_of g j of Some obj \<Rightarrow> Some (add obj item)
        | None \<Rightarrow> if j \<in> set Object_prototype_names then None else Some (add (new j) item))
     else map_of g j)"
  by (cases "map_of g (chart_key x item)")
     (simp_all add: group_step_def Let_def map_of_Map_set)

lemma removeAll_first_seen: "removeAll k (first_seen ks) = first_seen (filter (\<lambda>j. j \<noteq> k) ks)"
proof (induction ks)
  case Nil
  show ?case by simp
next
  case (Cons a ks)
  have c: "removeAll k (removeAll a xs) = removeAll a (removeAll k xs)" for xs :: "'a list"
    by (simp add: removeAll_filter_not_eq conj_commute)
  show ?case using Cons by (auto simp: c)
qed

lemma set_first_seen: "set (first_seen ks) = set ks"
  by (induction ks) auto

lemma distinct_first_seen: "distinct (first_seen ks)"
  by (induction ks) (simp_all add: distinct_removeAll)

lemma kept_keys_Cons:
  "kept_keys x (item # data) =
    (if chart_key x item \<in> set Object_prototype_names then kept_keys x data
     else chart_key x item # kept_keys x data)"
  by (simp add: kept_keys_def)

lemma filter_notin_snoc:
  "filter (\<lambda>j. j \<notin> set (ks @ [k])) xs = filter (\<lambda>j. j \<noteq> k) (filter (\<lambda>j. j \<notin> set ks) xs)"
  by (induction xs) auto

lemma foldl_group_step_keys:
  "map fst (foldl (group_step new add x) g data) =
    map fst g @ first_seen (filter (\<lambda>k. k \<notin> set (map fst g)) (kept_keys x data))"
proof (induction data arbitrary: g)
  case Nil
  show ?case by (simp add: kept_keys_def)
next
  case (Cons item data)
  let ?k = "chart_key x item"
  let ?g = "group_step new add x g item"
  note IH = Cons.IH [of ?g]
  show ?case
  proof (cases "?k \<in> set (map fst g) \<or> ?k \<in> set Object_prototype_names")
    case True
    then have "map fst ?g = map fst g" by (simp only: group_step_keys if_True)
    with IH True show ?thesis by (auto simp: kept_keys_Cons)
  next
    case False
    then have keys: "map fst ?g = map fst g @ [?k]" by (simp only: group_step_keys if_False)
    from IH keys have "map fst (foldl (group_step new add x) ?g data) =
        (map fst g @ [?k]) @ first_seen (filter (\<lambda>j. j \<notin> set (map fst g @ [?k])) (kept_keys x data))"
      by simp
    also have "\<dots> = map fst g @ ?k # removeAll ?k
        (first_seen (filter (\<lambda>j. j \<notin> set (map fst g)) (kept_keys x data)))"
      by (simp only: filter_notin_snoc removeAll_first_seen append_assoc append_Cons append_Nil)
    finally show ?thesis using False by (simp add: kept_keys_Cons)
  qed
qed

lemma foldl_group_step_map_of:
  "map_of (foldl (group_step new add x) g data) k =
    (case map_of g k of
       Some obj \<Rightarrow> Some (foldl add obj (group_rows x data k))
     | None \<Rightarrow> if group_rows x data k = [] \<or> k \<in> set Object_prototype_names then None
                else Some (foldl add (new k) (group_rows x data k)))"
proof (induction data arbitrary: g)
  case Nil
  show ?case by (simp add: group_rows_def split: option.split)
next
  case (Cons item data)
  show ?case
    by (simp add: Cons.IH group_step_map_of group_rows_def split: option.split)
qed


lemma map_fst_insort_key:
  "map fst (insort_key (\<lambda>p. f (fst p)) p ps) = insort_key f (fst p) (map fst ps)"
  by (induction ps) simp_all

lemma map_fst_sort_key: "map fst (sort_key (\<lambda>p. f (fst p)) ps) = sort_key f (map fst ps)"
  by (induction ps) (simp_all add: map_fst_insort_key)

lemma map_fst_filter: "map fst (filter (\<lambda>p. P (fst p)) ps) = filter P (map fst ps)"
  by (induction ps) simp_all

lemma Object_values_keys:
  assumes "distinct (map fst g)"
  shows "Object_values g = map (\<lambda>k. the (map_of g k)) (own_keys (map fst g))"
proof -
  let ?L = "sort_key (\<lambda>p. digits_val 10 (fst p)) (filter (\<lambda>p. is_array_index (fst p)) g) @
      filter (\<lambda>p. \<not> is_array_index (fst p)) g"
  have sub: "set ?L \<subseteq> set g" by auto
  have "snd p = the (map_of g (fst p))" if "p \<in> set ?L" for p
  proof -
    from that sub have "(fst p, snd p) \<in> set g" by auto
    with assms have "map_of g (fst p) = Some (snd p)" by (simp only: map_of_eq_Some_iff)
    then show ?thesis by simp
  qed
  then have "map snd ?L = map (\<lambda>p. the (map_of g (fst p))) ?L" by (simp only: map_eq_conv) blast
  also have "\<dots> = map (\<lambda>k. the (map_of g k)) (map fst ?L)" by (simp add: comp_def)
  also have "map fst ?L = own_keys (map fst g)"
    using map_fst_filter [of "\<lambda>k. \<not> is_array_index k" g]
    by (simp add: own_keys_def map_fst_sort_key map_fst_filter)
  finally show ?thesis by (simp add: Object_values_def)
qed

lemma set_own_keys: "set (own_keys ks) = set ks"
  by (auto simp: own_keys_def)

lemma distinct_own_keys: "distinct ks \<Longrightarrow> distinct (own_keys ks)"
  by (auto simp: own_keys_def)

lemma own_keys_no_index: "\<forall>k\<in>set ks. \<not> is_array_index k \<Longrightarrow> own_keys ks = ks"
proof -
  assume a: "\<forall>k\<in>set ks. \<not> is_array_index k"
  then have "filter is_array_index ks = []" by (simp add: filter_empty_conv)
  moreover from a have "filter (\<lambda>k. \<not> is_array_index k) ks = ks" by (simp add: filter_id_conv)
  ultimately show ?thesis by (simp add: own_keys_def)
qed

lemma obj_get_Map_set: "obj_get (Map_set obj k v) j = (if j = k then v else obj_get obj j)"
  by (simp add: obj_get_def cell_def map_of_Map_set)

lemma foldl_obj_set:
  "''__proto__'' \<notin> set ys \<Longrightarrow>
   foldl (\<lambda>obj field. obj_set obj field (g obj field)) obj ys =
   foldl (\<lambda>obj field. Map_set obj field (g obj field)) obj ys"
  by (induction ys arbitrary: obj) (auto simp: obj_set_def)

lemma obj_get_init_fields:
  assumes "''__proto__'' \<notin> set ys"
  shows "obj_get (init_fields ys obj) f = (if f \<in> set ys then Num (Fin 0) else obj_get obj f)"
proof -
  have "obj_get (foldl (\<lambda>obj field. Map_set obj field (Num (Fin 0))) obj zs) f =
      (if f \<in> set zs then Num (Fin 0) else obj_get obj f)" for zs
    by (induction zs arbitrary: obj) (simp_all add: obj_get_Map_set)
  then show ?thesis
    unfolding init_fields_def foldl_obj_set [OF assms, of "\<lambda>obj field. Num (Fin 0)"] .
qed

lemma obj_get_add_fields:
  assumes "''__proto__'' \<notin> set ys"
  shows "obj_get (add_fields ys obj item) f =
     foldl (\<lambda>v t. js_plus v (Num t)) (obj_get obj f) (field_terms ys f item)"
proof -
  have "obj_get (foldl (\<lambda>obj field. Map_set obj field
          (js_plus (obj_get obj field) (Num (y_term item field)))) obj zs) f =
      foldl (\<lambda>v t. js_plus v (Num t)) (obj_get obj f) (field_terms zs f item)" for zs
    unfolding field_terms_def
    by (induction zs arbitrary: obj) (simp_all add: obj_get_Map_set)
  then show ?thesis
    unfolding add_fields_def
      foldl_obj_set [OF assms, of "\<lambda>obj field. js_plus (obj_get obj field) (Num (y_term item field))"] .
qed

lemma obj_get_foldl_add_fields:
  "''__proto__'' \<notin> set ys \<Longrightarrow> obj_get (foldl (add_fields ys) obj rows) f =
     foldl (\<lambda>v t. js_plus v (Num t)) (obj_get obj f) (concat (map (field_terms ys f) rows))"
  by (induction rows arbitrary: obj) (simp_all add: obj_get_add_fields)

lemma js_plus_Num: "js_plus (Num a) (Num b) = Num (js_add a b)"
  by (simp add: js_plus_def is_text_def Number_def)

lemma foldl_js_plus_Num: "foldl (\<lambda>v t. js_plus v (Num t)) (Num a) ts = Num (foldl js_add a ts)"
  by (induction ts arbitrary: a) (simp_all add: js_plus_Num)




lemma grouped_values:
  "Object_values (foldl (group_step new add x) [] data) =
     map (\<lambda>k. foldl add (new k) (group_rows x data k)) (own_keys (first_seen (kept_keys x data)))"
proof -
  let ?G = "foldl (group_step new add x) [] data"
  have keys: "map fst ?G = first_seen (kept_keys x data)"
    using foldl_group_step_keys [of new add x "[]" data] by simp
  then have d: "distinct (map fst ?G)" by (simp add: distinct_first_seen)
  have "the (map_of ?G k) = foldl add (new k) (group_rows x data k)"
    if "k \<in> set (own_keys (first_seen (kept_keys x data)))" for k
  proof -
    from that have "k \<in> set (kept_keys x data)" by (simp add: set_own_keys set_first_seen)
    then have p: "k \<notin> set Object_prototype_names" and "k \<in> set (map (chart_key x) data)"
      by (simp_all add: kept_keys_def)
    then obtain item where "item \<in> set data" "chart_key x item = k" by auto
    then have "item \<in> set (group_rows x data k)" by (simp add: group_rows_def)
    then have "group_rows x data k \<noteq> []" by auto
    with p show ?thesis by (simp add: foldl_group_step_map_of)
  qed
  then have "map (\<lambda>k. the (map_of ?G k)) (own_keys (first_seen (kept_keys x data))) =
      map (\<lambda>k. foldl add (new k) (group_rows x data k)) (own_keys (first_seen (kept_keys x data)))"
    by (simp only: map_eq_conv) blast
  with Object_values_keys [OF d] keys show ?thesis by simp
qed


lemma forEach_group_item_no_throw:
  "\<forall>item\<in>set data. chart_key x item \<in> set Object_prototype_names \<longrightarrow> \<not> thr (chart_key x item) \<Longrightarrow>
   forEach (group_item thr new add x) g data = Inr (foldl (group_step new add x) g data)"
proof (induction data arbitrary: g)
  case Nil
  show ?case by simp
next
  case (Cons item data)
  from Cons.prems have "group_item thr new add x g item = Inr (group_step new add x g item)"
    by (auto simp: group_item_def Let_def)
  moreover from Cons.prems
  have "\<forall>item\<in>set data. chart_key x item \<in> set Object_prototype_names \<longrightarrow> \<not> thr (chart_key x item)"
    by simp
  ultimately show ?case using Cons.IH [of "group_step new add x g item"] by simp
qed



lemma bar_no_throw:
  assumes "data \<noteq> []" "x \<noteq> []" "ys \<noteq> []" "t = ''bar'' \<or> t = ''line''"
    and "\<forall>item\<in>set data. chart_key x item \<notin> set Object_prototype_names"
  shows "chartData data x ys t = Inr (map (bar_row x ys data) (own_keys (first_seen (kept_keys x data))))"
proof -
  from assms(5) have "forEach (bar_item x ys) [] data =
      Inr (foldl (group_step (\<lambda>xValue. init_fields ys [(x, Str xValue)]) (add_fields ys) x) [] data)"
    unfolding bar_item_def by (intro forEach_group_item_no_throw) simp
  with assms(1-4) show ?thesis by (simp add: chartData_def grouped_values bar_row_def)
qed


lemma y_term_zero: "isNaN (Number (cell item f)) \<Longrightarrow> y_term item f = Fin 0"
  by (simp add: y_term_def isNaN_def js_or_def truthy_def Number_def)

lemma bar_row_field:
  "''__proto__'' \<notin> set ys \<Longrightarrow> f \<in> set ys \<Longrightarrow>
   obj_get (bar_row x ys data k) f = Num (group_sum ys f (group_rows x data k))"
  by (simp add: bar_row_def obj_get_foldl_add_fields obj_get_init_fields foldl_js_plus_Num
      group_sum_def)




lemma concat_Nil_all: "\<forall>x\<in>set xs. f x = [] \<Longrightarrow> concat (map f xs) = []"
  by (induction xs) simp_all

lemma kept_keys_all:
  "\<forall>item\<in>set data. chart_key x item \<notin> set Object_prototype_names \<Longrightarrow>
   kept_keys x data = map (chart_key x) data"
  by (simp add: kept_keys_def filter_id_conv)

lemma bar_row_x:
  assumes "x \<notin> set ys" and p: "''__proto__'' \<notin> set ys"
  shows "obj_get (bar_row x ys data k) x = Str k"
proof -
  from assms have "field_terms ys x item = []" for item
    by (simp add: field_terms_def count_list_0_iff)
  then have "concat (map (field_terms ys x) (group_rows x data k)) = []"
    by (simp add: concat_Nil_all)
  moreover have "obj_get (init_fields ys [(x, Str k)]) x = Str k"
  proof -
    have "obj_get [(x, Str k)] x = Str k" by (simp add: obj_get_def cell_def)
    with assms show ?thesis by (simp only: obj_get_init_fields [OF p] if_False)
  qed
  ultimately show ?thesis by (simp only: bar_row_def obj_get_foldl_add_fields [OF p] foldl_Nil)
qed


lemma map_bar_row_fields:
  "''__proto__'' \<notin> set ys \<Longrightarrow>
   map (\<lambda>row. map (obj_get row) ys) (map (bar_row x ys data) ks) =
   map (\<lambda>k. map (\<lambda>f. Num (group_sum ys f (group_rows x data k))) ys) ks"
  by (simp add: comp_def bar_row_field cong: map_cong)

lemma map_bar_row_x:
  "x \<notin> set ys \<Longrightarrow> ''__proto__'' \<notin> set ys \<Longrightarrow> map (\<lambda>row. obj_get row x) (map (bar_row x ys data) ks) = map Str ks"
  by (simp add: comp_def bar_row_x)









text \<open>
  Claim C1, amended: for a non-empty dataset, an x-field that is not one of the y-fields
  (none of which is \<open>__proto__\<close>) and groups none of which is named as a member of
  \<open>Object.prototype\<close>, the bar and line aggregation returns exactly one row for each
  distinct group; the rows whose groups are array indices come first, in ascending numeric
  order, then the other rows in first-seen order (so the order is the first-seen order
  when no group is an array index); the row of a group carries the group under the x-field
  and, under each y-field, the sum over the rows of that group, from \<open>0\<close> and in the order
  of the dataset, of one term for each time the field is listed.
\<close>

theorem one_row_per_key:
  assumes "data \<noteq> []" and "xAxisField \<noteq> []" and "yAxisFields \<noteq> []"
    and "chartType = ''bar'' \<or> chartType = ''line''"
    and "xAxisField \<notin> set yAxisFields" and "''__proto__'' \<notin> set yAxisFields"
    and "\<forall>item\<in>set data. chart_key xAxisField item \<notin> set Object_prototype_names"
  shows "\<exists>rows. chartData data xAxisField yAxisFields chartType = Inr rows \<and>
           map (\<lambda>row. obj_get row xAxisField) rows =
             map Str (own_keys (first_seen (map (chart_key xAxisField) data))) \<and>
           map (\<lambda>row. map (obj_get row) yAxisFields) rows =
             map (\<lambda>k. map (\<lambda>f. Num (group_sum yAxisFields f (group_rows xAxisField data k)))
                        yAxisFields)
               (own_keys (first_seen (map (chart_key xAxisField) data))) \<and>
           length rows = card (set (map (chart_key xAxisField) data)) \<and>
           distinct (own_keys (first_seen (map (chart_key xAxisField) data))) \<and>
           set (own_keys (first_seen (map (chart_key xAxisField) data))) =
             set (map (chart_key xAxisField) data) \<and>
           ((\<forall>k\<in>set (map (chart_key xAxisField) data). \<not> is_array_index k) \<longrightarrow>
              own_keys (first_seen (map (chart_key xAxisField) data)) =
                first_seen (map (chart_key xAxisField) data))"
proof -
  let ?keys = "map (chart_key xAxisField) data"
  let ?ks = "own_keys (first_seen ?keys)"
  let ?rows = "map (bar_row xAxisField yAxisFields data) ?ks"
  have rows: "chartData data xAxisField yAxisFields chartType = Inr ?rows"
    using bar_no_throw [OF assms(1-4) assms(7)] kept_keys_all [OF assms(7)] by simp
  have a: "map (\<lambda>row. obj_get row xAxisField) ?rows = map Str ?ks"
    by (rule map_bar_row_x [OF assms(5,6)])
  have s: "map (\<lambda>row. map (obj_get row) yAxisFields) ?rows =
      map (\<lambda>k. map (\<lambda>f. Num (group_sum yAxisFields f (group_rows xAxisField data k))) yAxisFields) ?ks"
    by (rule map_bar_row_fields [OF assms(6)])
  have b: "distinct ?ks" by (simp add: distinct_own_keys distinct_first_seen)
  have c: "set ?ks = set ?keys" by (simp only: set_own_keys set_first_seen)
  have "length ?rows = length ?ks" by simp
  also have "\<dots> = card (set ?ks)" using b by (simp only: distinct_card)
  finally have d: "length ?rows = card (set ?keys)" by (simp only: c)
  have e: "?ks = first_seen ?keys" if "\<forall>k\<in>set ?keys. \<not> is_array_index k"
  proof -
    from that have "\<forall>k\<in>set (first_seen ?keys). \<not> is_array_index k"
      by (simp only: set_first_seen)
    then show ?thesis by (rule own_keys_no_index)
  qed
  from rows a s d b c e show ?thesis by blast
qed

text \<open>
  Claim C1 as stated fails on a numeric x-column: the years 2021, 2020 are seen in this
  order and come out as 2020, 2021.
\<close>

theorem row_order_counterexample:
  "chartData [[(''year'', Num (Fin 2021)), (''sales'', Num (Fin 5))],
              [(''year'', Num (Fin 2020)), (''sales'', Num (Fin 7))]]
        ''year'' [''sales''] ''bar'' =
     Inr [[(''year'', Str ''2020''), (''sales'', Num (Fin 7))],
          [(''year'', Str ''2021''), (''sales'', Num (Fin 5))]] \<and>
   first_seen (map (chart_key ''year'')
      [[(''year'', Num (Fin 2021)), (''sales'', Num (Fin 5))],
       [(''year'', Num (Fin 2020)), (''sales'', Num (Fin 7))]]) = [''2021'', ''2020'']"
  by code_simp

text \<open>
  The claim on the dataset of scenario C: the rows for \<open>"x"\<close> and \<open>"y"\<close>, in this order,
  with the sums \<open>4\<close> and \<open>2\<close>.
\<close>

theorem one_row_per_key_witness:
  "[[(''a'', Num (Fin 1)), (''b'', Str ''x'')], [(''a'', Num (Fin 2)), (''b'', Str ''y'')],
    [(''a'', Num (Fin 3)), (''b'', Str ''x'')]] \<noteq> ([] :: dataset) \<and>
   ''b'' \<noteq> [] \<and> [''a''] \<noteq> ([] :: string list) \<and> ''b'' \<notin> set [''a''] \<and>
   ''__proto__'' \<notin> set [''a''] \<and>
   list_all (\<lambda>item. chart_key ''b'' item \<notin> set Object_prototype_names)
     [[(''a'', Num (Fin 1)), (''b'', Str ''x'')], [(''a'', Num (Fin 2)), (''b'', Str ''y'')],
      [(''a'', Num (Fin 3)), (''b'', Str ''x'')]] \<and>
   chartData [[(''a'', Num (Fin 1)), (''b'', Str ''x'')], [(''a'', Num (Fin 2)), (''b'', Str ''y'')],
        [(''a'', Num (Fin 3)), (''b'', Str ''x'')]] ''b'' [''a''] ''bar'' =
     Inr [[(''b'', Str ''x''), (''a'', Num (Fin 4))], [(''b'', Str ''y''), (''a'', Num (Fin 2))]] \<and>
   map (\<lambda>k. map (\<lambda>f. Num (group_sum [''a''] f (group_rows ''b''
        [[(''a'', Num (Fin 1)), (''b'', Str ''x'')], [(''a'', Num (Fin 2)), (''b'', Str ''y'')],
         [(''a'', Num (Fin 3)), (''b'', Str ''x'')]] k))) [''a''])
     (own_keys (first_seen (map (chart_key ''b'')
        [[(''a'', Num (Fin 1)), (''b'', Str ''x'')], [(''a'', Num (Fin 2)), (''b'', Str ''y'')],
         [(''a'', Num (Fin 3)), (''b'', Str ''x'')]]))) = [[Num (Fin 4)], [Num (Fin 2)]] \<and>
   own_keys (first_seen (map (chart_key ''b'')
        [[(''a'', Num (Fin 1)), (''b'', Str ''x'')], [(''a'', Num (Fin 2)), (''b'', Str ''y'')],
         [(''a'', Num (Fin 3)), (''b'', Str ''x'')]])) = [''x'', ''y'']"
proof -
  let ?D = "[[(''a'', Num (Fin 1)), (''b'', Str ''x'')], [(''a'', Num (Fin 2)), (''b'', Str ''y'')],
    [(''a'', Num (Fin 3)), (''b'', Str ''x'')]]"
  let ?R = "[[(''b'', Str ''x''), (''a'', Num (Fin 4))], [(''b'', Str ''y''), (''a'', Num (Fin 2))]]"
  have h1: "?D \<noteq> ([] :: dataset)" by simp
  have h2: "''b'' \<noteq> []" by simp
  have h3: "[''a''] \<noteq> ([] :: string list)" by simp
  have h4: "''bar'' = ''bar'' \<or> ''bar'' = ''line''" by simp
  have h5: "''b'' \<notin> set [''a'']" by simp
  have h7: "''__proto__'' \<notin> set [''a'']" by simp
  have h6: "list_all (\<lambda>item. chart_key ''b'' item \<notin> set Object_prototype_names) ?D" by code_simp
  then have h6': "\<forall>item\<in>set ?D. chart_key ''b'' item \<notin> set Object_prototype_names"
    by (simp only: list_all_iff)
  have r: "chartData ?D ''b'' [''a''] ''bar'' = Inr ?R" by code_simp
  have k: "own_keys (first_seen (map (chart_key ''b'') ?D)) = [''x'', ''y'']" by code_simp
  have e: "map (\<lambda>row. map (obj_get row) [''a'']) ?R = [[Num (Fin 4)], [Num (Fin 2)]]" by code_simp
  from one_row_per_key [OF h1 h2 h3 h4 h5 h7 h6'] r
  have "map (\<lambda>row. map (obj_get row) [''a'']) ?R =
      map (\<lambda>k. map (\<lambda>f. Num (group_sum [''a''] f (group_rows ''b'' ?D k))) [''a''])
        (own_keys (first_seen (map (chart_key ''b'') ?D)))"
    by auto
  with e have s: "map (\<lambda>k. map (\<lambda>f. Num (group_sum [''a''] f (group_rows ''b'' ?D k))) [''a''])
        (own_keys (first_seen (map (chart_key ''b'') ?D))) = [[Num (Fin 4)], [Num (Fin 2)]]"
    by simp
  from h1 h2 h3 h5 h7 h6 r s k show ?thesis by (intro conjI)
qed

text \<open>
  Claim C4 at a row whose x-value is the number \<open>0\<close>: the value is present and its string
  form is \<open>"0"\<close>, but the row is grouped under \<open>"undefined"\<close>, for the bar and for the pie
  chart.
\<close>

theorem zero_x_value_grouped_as_undefined:
  "cell [(''rating'', Num (Fin 0)), (''votes'', Num (Fin 4))] ''rating'' = Num (Fin 0) \<and>
   String (Num (Fin 0)) = ''0'' \<and>
   chart_key ''rating'' [(''rating'', Num (Fin 0)), (''votes'', Num (Fin 4))] = ''undefined'' \<and>
   chartData [[(''rating'', Num (Fin 0)), (''votes'', Num (Fin 4))]] ''rating'' [''votes''] ''bar'' =
     Inr [[(''rating'', Str ''undefined''), (''votes'', Num (Fin 4))]] \<and>
   chartData [[(''rating'', Num (Fin 0)), (''votes'', Num (Fin 4))]] ''rating'' [''votes''] ''pie'' =
     Inr [[(''name'', Str ''undefined''), (''value'', Num (Fin 4))]]"
  by code_simp

section \<open>Rounding, order and the numeric statistics\<close>

lemma pow2_powi: "pow2 k = 2 powi k"
  by (simp add: pow2_def power_int_def power_inverse field_simps)

lemma pow2_pos: "0 < pow2 k"
  by (simp add: pow2_powi)

lemma pow2_add: "pow2 (a + b) = pow2 a * pow2 b"
  by (simp add: pow2_powi power_int_add)

lemma pow2_mono: "a \<le> b \<Longrightarrow> pow2 a \<le> pow2 b"
  by (simp add: pow2_powi power_int_increasing)

lemma pow2_nat: "0 \<le> k \<Longrightarrow> pow2 k = of_int (2 ^ nat k)"
  by (simp add: pow2_def)

lemma blen_nonneg: "0 \<le> blen n"
proof (induction n rule: blen.induct)
  case (1 n)
  then show ?case by (simp add: blen.simps [of n])
qed

lemma blen_pos: "0 < n \<Longrightarrow> 0 < blen n"
  using blen_nonneg [of "n div 2"] by (simp add: blen.simps [of n])

lemma blen_upper: "0 \<le> n \<Longrightarrow> n < 2 ^ nat (blen n)"
proof (induction n rule: blen.induct)
  case (1 n)
  show ?case
  proof (cases "n \<le> 0")
    case True
    with 1 show ?thesis by (simp add: blen.simps [of n])
  next
    case False
    then have "n div 2 < 2 ^ nat (blen (n div 2))" using 1 by simp
    then have "n < 2 * 2 ^ nat (blen (n div 2))" by linarith
    moreover have "nat (blen n) = Suc (nat (blen (n div 2)))"
      using False blen_nonneg [of "n div 2"] by (simp add: blen.simps [of n] nat_add_distrib)
    ultimately show ?thesis by simp
  qed
qed

lemma blen_lower: "0 < n \<Longrightarrow> 2 ^ nat (blen n - 1) \<le> n"
proof (induction n rule: blen.induct)
  case (1 n)
  show ?case
  proof (cases "n div 2 \<le> 0")
    case True
    with 1 have "n = 1" by linarith
    then show ?thesis by (simp add: blen.simps [of 1] blen.simps [of 0])
  next
    case False
    then have "2 ^ nat (blen (n div 2) - 1) \<le> n div 2" using 1 by simp
    then have "2 * 2 ^ nat (blen (n div 2) - 1) \<le> n" by linarith
    moreover have "nat (blen n - 1) = Suc (nat (blen (n div 2) - 1))"
      using False 1 blen_pos [of "n div 2"] by (simp add: blen.simps [of n])
    ultimately show ?thesis by simp
  qed
qed

lemma flog2_lower: "0 < a \<Longrightarrow> pow2 (flog2 a) \<le> a"
proof (cases "1 \<le> a")
  case True
  then have f: "0 < \<lfloor>a\<rfloor>" by simp
  have "pow2 (flog2 a) = of_int (2 ^ nat (blen \<lfloor>a\<rfloor> - 1))"
    using True blen_pos [OF f] by (simp add: flog2_def pow2_nat)
  also have "\<dots> \<le> of_int \<lfloor>a\<rfloor>" using blen_lower [OF f] by (simp only: of_int_le_iff)
  also have "\<dots> \<le> a" by simp
  finally show ?thesis .
next
  case False
  assume a: "0 < a"
  let ?c = "\<lceil>1 / a\<rceil> - 1"
  from False a have "1 < 1 / a" by (simp add: field_simps)
  then have c: "0 \<le> ?c" by linarith
  have "1 / a \<le> of_int \<lceil>1 / a\<rceil>" by simp
  also have "\<lceil>1 / a\<rceil> \<le> 2 ^ nat (blen ?c)" using blen_upper [OF c] by linarith
  finally have "1 / a \<le> of_int (2 ^ nat (blen ?c))" by simp
  then have "1 / of_int (2 ^ nat (blen ?c)) \<le> a" using a by (simp add: field_simps)
  moreover have "pow2 (flog2 a) = 1 / of_int (2 ^ nat (blen ?c))"
    using False blen_nonneg [of ?c] by (simp add: flog2_def pow2_def)
  ultimately show ?thesis by simp
qed

lemma rhe_ge: "of_int k \<le> x \<Longrightarrow> k \<le> rhe x"
proof -
  assume "of_int k \<le> x"
  then have "k \<le> \<lfloor>x\<rfloor>" by (simp add: le_floor_iff)
  then show ?thesis by (simp add: rhe_def Let_def)
qed


lemma pow2_less: "a < b \<Longrightarrow> pow2 a < pow2 b"
  by (simp add: pow2_powi power_int_strict_increasing)

lemma pow2_less_cancel: "pow2 a < pow2 b \<Longrightarrow> a < b"
  using pow2_mono [of b a] by (cases "a < b") simp_all

lemma pow2_le_cancel: "pow2 a \<le> pow2 b \<Longrightarrow> a \<le> b"
  using pow2_less [of b a] by (cases "a \<le> b") simp_all

lemma pow2_52: "pow2 52 = of_int (2 ^ 52)" and pow2_53: "pow2 53 = of_int (2 ^ 53)"
  and pow2_1: "pow2 1 = 2"
  by (simp_all add: pow2_def)

lemma pow2_53_mult: "pow2 53 * pow2 (e - 52) = pow2 (e + 1)"
proof -
  have "pow2 53 * pow2 (e - 52) = pow2 (53 + (e - 52))" by (rule pow2_add [symmetric])
  also have "53 + (e - 52) = e + 1" by simp
  finally show ?thesis .
qed

lemma pow2_52_mult: "pow2 52 * pow2 (e - 52) = pow2 e"
proof -
  have "pow2 52 * pow2 (e - 52) = pow2 (52 + (e - 52))" by (rule pow2_add [symmetric])
  also have "52 + (e - 52) = e" by simp
  finally show ?thesis .
qed

lemma pow2_shift: "pow2 (e + 1 - 52) = 2 * pow2 (e - 52)"
proof -
  have "pow2 1 * pow2 (e - 52) = pow2 (1 + (e - 52))" by (rule pow2_add [symmetric])
  also have "1 + (e - 52) = e + 1 - 52" by simp
  finally show ?thesis by (simp add: pow2_1)
qed

lemma flog2_upper: "0 < a \<Longrightarrow> a < pow2 (flog2 a + 1)"
proof (cases "1 \<le> a")
  case True
  then have f: "0 \<le> \<lfloor>a\<rfloor>" and p: "0 < \<lfloor>a\<rfloor>" by simp_all
  have "\<lfloor>a\<rfloor> + 1 \<le> 2 ^ nat (blen \<lfloor>a\<rfloor>)" using blen_upper [OF f] by simp
  then have "(of_int (\<lfloor>a\<rfloor> + 1) :: rat) \<le> of_int (2 ^ nat (blen \<lfloor>a\<rfloor>))"
    by (simp only: of_int_le_iff)
  moreover have "a < of_int (\<lfloor>a\<rfloor> + 1)" by (rule floor_correct [THEN conjunct2])
  ultimately have "a < of_int (2 ^ nat (blen \<lfloor>a\<rfloor>))" by (rule less_le_trans [rotated])
  moreover have "pow2 (flog2 a + 1) = of_int (2 ^ nat (blen \<lfloor>a\<rfloor>))"
    using True blen_pos [OF p] by (simp add: flog2_def pow2_nat)
  ultimately show ?thesis by simp
next
  case False
  assume a: "0 < a"
  let ?c = "\<lceil>1 / a\<rceil> - 1"
  from False a have "1 < 1 / a" by (simp add: field_simps)
  then have c: "0 \<le> ?c" by linarith
  have fl: "flog2 a = - blen ?c" using False by (simp add: flog2_def)
  show ?thesis
  proof (cases "?c = 0")
    case True
    then have "blen ?c = 0" by (simp add: blen.simps [of 0])
    with fl have "pow2 (flog2 a + 1) = 2" by (simp add: pow2_def)
    with False show ?thesis by simp
  next
    case n0: False
    with c have p: "0 < ?c" by (metis less_le)
    have "(of_int (2 ^ nat (blen ?c - 1)) :: rat) \<le> of_int ?c"
      using blen_lower [OF p] by (simp only: of_int_le_iff)
    also have "(of_int ?c :: rat) < 1 / a" by linarith
    finally have "of_int (2 ^ nat (blen ?c - 1)) < 1 / a" .
    then have "a < 1 / of_int (2 ^ nat (blen ?c - 1))"
      using a by (simp add: field_simps)
    moreover have "pow2 (flog2 a + 1) = 1 / of_int (2 ^ nat (blen ?c - 1))"
    proof (cases "blen ?c = 1")
      case True
      with fl show ?thesis by (simp add: pow2_def)
    next
      case False
      with blen_pos [OF p] have "1 < blen ?c" by simp
      with fl show ?thesis by (simp add: pow2_def)
    qed
    ultimately show ?thesis by simp
  qed
qed

lemma flog2_unique:
  assumes "pow2 e \<le> a" and "a < pow2 (e + 1)"
  shows "flog2 a = e"
proof -
  have a: "0 < a" using pow2_pos [of e] assms(1) by simp
  have "pow2 (flog2 a) < pow2 (e + 1)"
    using flog2_lower [OF a] assms(2) by simp
  then have 1: "flog2 a < e + 1" by (rule pow2_less_cancel)
  have "pow2 e < pow2 (flog2 a + 1)"
    using flog2_upper [OF a] assms(1) by simp
  then have 2: "e < flog2 a + 1" by (rule pow2_less_cancel)
  from 1 2 show ?thesis by simp
qed

lemma flog2_mono:
  assumes "0 < a" and "a \<le> b"
  shows "flog2 a \<le> flog2 b"
proof -
  from assms have b: "0 < b" by simp
  have "pow2 (flog2 a) < pow2 (flog2 b + 1)"
    using flog2_lower [OF assms(1)] flog2_upper [OF b] assms(2) by simp
  then have "flog2 a < flog2 b + 1" by (rule pow2_less_cancel)
  then show ?thesis by simp
qed

lemma rhe_bounds: "\<lfloor>x\<rfloor> \<le> rhe x \<and> rhe x \<le> \<lfloor>x\<rfloor> + 1"
  by (simp add: rhe_def Let_def)

lemma rhe_of_int: "rhe (of_int k) = k"
  by (simp add: rhe_def Let_def)

lemma rhe_mono:
  assumes "x \<le> y"
  shows "rhe x \<le> rhe y"
proof (cases "\<lfloor>x\<rfloor> = \<lfloor>y\<rfloor>")
  case True
  with assms have "x - of_int \<lfloor>x\<rfloor> \<le> y - of_int \<lfloor>x\<rfloor>" by simp
  with True show ?thesis by (simp add: rhe_def Let_def)
next
  case False
  from assms have "\<lfloor>x\<rfloor> \<le> \<lfloor>y\<rfloor>" by (rule floor_mono)
  with False have "\<lfloor>x\<rfloor> + 1 \<le> \<lfloor>y\<rfloor>" by simp
  with rhe_bounds [of x] rhe_bounds [of y] show ?thesis by linarith
qed

lemma rhe_le: "x \<le> of_int k \<Longrightarrow> rhe x \<le> k"
  using rhe_mono [of x "of_int k"] by (simp add: rhe_of_int)

lemma round_mag_repr:
  assumes "0 < a"
  obtains k e where "round_mag a = of_int k * pow2 (e - 52)" and "0 \<le> k" and "k \<le> 2 ^ 53"
    and "- 1022 \<le> e" and "2 ^ 52 \<le> k \<or> e = - 1022" and "e = max (flog2 a) (- 1022)"
proof -
  let ?e = "max (flog2 a) (- 1022)"
  let ?u = "pow2 (?e - 52)"
  let ?k = "rhe (a / ?u)"
  have u: "0 < ?u" by (rule pow2_pos)
  have 1: "round_mag a = of_int ?k * ?u" by (simp add: round_mag_def Let_def)
  have "of_int 0 \<le> a / ?u" using assms u by simp
  then have 2: "0 \<le> ?k" by (rule rhe_ge)
  have "a < pow2 (flog2 a + 1)" using assms by (rule flog2_upper)
  also have "\<dots> \<le> pow2 (?e + 1)" by (rule pow2_mono) simp
  also have "\<dots> = pow2 53 * ?u" by (rule pow2_53_mult [symmetric])
  finally have "a / ?u \<le> of_int (2 ^ 53)" using u by (simp add: pow2_53 field_simps)
  then have 3: "?k \<le> 2 ^ 53" by (rule rhe_le)
  have 5: "2 ^ 52 \<le> ?k \<or> ?e = - 1022"
  proof (cases "- 1022 \<le> flog2 a")
    case True
    then have e: "?e = flog2 a" by simp
    have "pow2 52 * ?u = pow2 ?e" by (rule pow2_52_mult)
    also have "\<dots> \<le> a" unfolding e using assms by (rule flog2_lower)
    finally have "of_int (2 ^ 52) \<le> a / ?u" using u by (simp add: pow2_52 field_simps)
    then have "2 ^ 52 \<le> ?k" by (rule rhe_ge)
    then show ?thesis by simp
  next
    case False
    then show ?thesis by simp
  qed
  show ?thesis using that [of ?k ?e] 1 2 3 5 by simp
qed

lemma round_mag_fixed_less:
  assumes "0 < k" and "k < 2 ^ 53" and "- 1022 \<le> e" and "2 ^ 52 \<le> k \<or> e = - 1022"
  shows "round_mag (of_int k * pow2 (e - 52)) = of_int k * pow2 (e - 52)"
proof -
  let ?u = "pow2 (e - 52)"
  let ?r = "of_int k * ?u"
  have u: "0 < ?u" by (rule pow2_pos)
  have r: "0 < ?r" using assms(1) u by simp
  have up: "?r < pow2 (e + 1)"
  proof -
    from assms(2) have "(of_int k :: rat) < of_int (2 ^ 53)" by (simp only: of_int_less_iff)
    then have "?r < pow2 53 * ?u" using u by (simp add: pow2_53)
    also have "\<dots> = pow2 (e + 1)" by (rule pow2_53_mult)
    finally show ?thesis .
  qed
  have "max (flog2 ?r) (- 1022) = e"
  proof (cases "2 ^ 52 \<le> k")
    case True
    then have "(of_int (2 ^ 52) :: rat) \<le> of_int k" by (simp only: of_int_le_iff)
    then have "pow2 52 * ?u \<le> ?r" using u by (simp add: pow2_52)
    moreover have "pow2 52 * ?u = pow2 e" by (rule pow2_52_mult)
    ultimately have "pow2 e \<le> ?r" by simp
    then have "flog2 ?r = e" using up by (rule flog2_unique)
    with assms(3) show ?thesis by simp
  next
    case False
    with assms(4) have e: "e = - 1022" by simp
    have "pow2 (flog2 ?r) \<le> ?r" using r by (rule flog2_lower)
    also note up
    finally have "flog2 ?r < e + 1" by (rule pow2_less_cancel)
    with e show ?thesis by simp
  qed
  then have "round_mag ?r = of_int (rhe (?r / ?u)) * ?u" by (simp add: round_mag_def Let_def)
  moreover have "?r / ?u = of_int k" using u by simp
  ultimately show ?thesis by (simp only: rhe_of_int)
qed

lemma round_mag_fixed:
  assumes "0 < k" and "k \<le> 2 ^ 53" and "- 1022 \<le> e" and "2 ^ 52 \<le> k \<or> e = - 1022"
  shows "round_mag (of_int k * pow2 (e - 52)) = of_int k * pow2 (e - 52)"
proof (cases "k = 2 ^ 53")
  case True
  have "of_int k * pow2 (e - 52) = of_int (2 ^ 52) * pow2 ((e + 1) - 52)"
    unfolding True pow2_shift by simp
  moreover have "round_mag (of_int (2 ^ 52) * pow2 ((e + 1) - 52)) = of_int (2 ^ 52) * pow2 ((e + 1) - 52)"
    by (rule round_mag_fixed_less) (use assms(3) in simp_all)
  ultimately show ?thesis by simp
next
  case False
  with assms(2) have "k < 2 ^ 53" by simp
  with assms(1) show ?thesis using assms(3,4) by (rule round_mag_fixed_less)
qed

lemma round_mag_nonneg: "0 < a \<Longrightarrow> 0 \<le> round_mag a"
  by (erule round_mag_repr) (simp add: pow2_pos less_imp_le)

lemma round_mag_idem:
  assumes "0 < a" and "round_mag a \<noteq> 0"
  shows "round_mag (round_mag a) = round_mag a"
proof -
  from assms(1) obtain k e where r: "round_mag a = of_int k * pow2 (e - 52)"
    and k: "0 \<le> k" "k \<le> 2 ^ 53" and e: "- 1022 \<le> e" "2 ^ 52 \<le> k \<or> e = - 1022"
    by (rule round_mag_repr)
  from assms(2) r k(1) have "0 < k" by (cases "k = 0") simp_all
  then show ?thesis unfolding r using k(2) e by (rule round_mag_fixed)
qed

lemma round_mag_twice:
  assumes "0 < a" and "round_mag a = a"
  shows "round_mag (2 * a) = 2 * a"
proof -
  from assms(1) obtain k e where r: "round_mag a = of_int k * pow2 (e - 52)"
    and k: "0 \<le> k" "k \<le> 2 ^ 53" and e: "- 1022 \<le> e" "2 ^ 52 \<le> k \<or> e = - 1022"
    by (rule round_mag_repr)
  from assms r have a: "a = of_int k * pow2 (e - 52)" by simp
  with assms(1) k(1) have p: "0 < k" by (cases "k = 0") simp_all
  have "2 * a = of_int k * pow2 ((e + 1) - 52)"
    unfolding a pow2_shift by simp
  moreover have "round_mag (of_int k * pow2 ((e + 1) - 52)) = of_int k * pow2 ((e + 1) - 52)"
  proof (cases "2 ^ 52 \<le> k")
    case True
    with p k(2) e(1) show ?thesis by (intro round_mag_fixed) simp_all
  next
    case False
    with e(2) have e1: "e = - 1022" by simp
    from False have k2: "2 * k \<le> 2 ^ 53" by simp
    have "of_int k * pow2 ((e + 1) - 52) = of_int (2 * k) * pow2 (e - 52)"
      unfolding pow2_shift by simp
    moreover have "round_mag (of_int (2 * k) * pow2 (e - 52)) = of_int (2 * k) * pow2 (e - 52)"
      using p k2 e1 by (intro round_mag_fixed) simp_all
    ultimately show ?thesis by (simp only:)
  qed
  ultimately show ?thesis by (simp only:)
qed

lemma round_mag_mono:
  assumes "0 < a" and "a \<le> b"
  shows "round_mag a \<le> round_mag b"
proof -
  from assms have b: "0 < b" by simp
  let ?ea = "max (flog2 a) (- 1022)" and ?eb = "max (flog2 b) (- 1022)"
  have le: "?ea \<le> ?eb" using flog2_mono [OF assms] by simp
  show ?thesis
  proof (cases "?ea = ?eb")
    case True
    let ?u = "pow2 (?eb - 52)"
    have u: "0 < ?u" by (rule pow2_pos)
    have "a / ?u \<le> b / ?u" using assms(2) u by (simp add: divide_right_mono)
    then have "rhe (a / ?u) \<le> rhe (b / ?u)" by (rule rhe_mono)
    then have "(of_int (rhe (a / ?u)) :: rat) * ?u \<le> of_int (rhe (b / ?u)) * ?u"
      using u by simp
    with True show ?thesis by (simp add: round_mag_def Let_def)
  next
    case False
    with le have lt: "?ea + 1 \<le> ?eb" by simp
    then have fb: "?eb = flog2 b" by (simp add: max_def split: if_splits)
    obtain k e where r: "round_mag a = of_int k * pow2 (e - 52)" and k: "k \<le> 2 ^ 53"
      and e: "e = ?ea"
      using assms(1) by (rule round_mag_repr)
    have "(of_int k :: rat) \<le> of_int (2 ^ 53)" using k by (simp only: of_int_le_iff)
    then have "round_mag a \<le> pow2 53 * pow2 (?ea - 52)"
      unfolding r e using pow2_pos [of "?ea - 52"] by (simp add: pow2_53)
    also have "\<dots> = pow2 (?ea + 1)" by (rule pow2_53_mult)
    also have "\<dots> \<le> pow2 ?eb" using lt by (rule pow2_mono)
    also have "\<dots> \<le> round_mag b"
    proof -
      let ?u = "pow2 (?eb - 52)"
      have u: "0 < ?u" by (rule pow2_pos)
      have "pow2 52 * ?u = pow2 ?eb" by (rule pow2_52_mult)
      also have "\<dots> \<le> b" unfolding fb using b by (rule flog2_lower)
      finally have "of_int (2 ^ 52) \<le> b / ?u" using u by (simp add: pow2_52 field_simps)
      then have "2 ^ 52 \<le> rhe (b / ?u)" by (rule rhe_ge)
      then have "(of_int (2 ^ 52) :: rat) \<le> of_int (rhe (b / ?u))" by (simp only: of_int_le_iff)
      then have "pow2 52 * ?u \<le> of_int (rhe (b / ?u)) * ?u" using u by (simp add: pow2_52)
      moreover have "pow2 52 * ?u = pow2 ?eb" by (rule pow2_52_mult)
      ultimately show ?thesis by (simp add: round_mag_def Let_def)
    qed
    finally show ?thesis .
  qed
qed


lemma round_double_neg: "round_double (- q) = js_neg (round_double q)"
  by (simp add: round_double_def Let_def js_neg_def)

lemma round_double_pos_cases:
  assumes "0 < q"
  shows "(round_double q = PInf \<and> pow2 1024 \<le> round_mag q) \<or>
         (round_double q = Fin (round_mag q) \<and> round_mag q < pow2 1024)"
  using assms by (simp add: round_double_def Let_def)

lemma round_double_mono_pos:
  assumes "0 < a" and "a \<le> b"
  shows "js_le (round_double a) (round_double b)"
proof -
  from assms have b: "0 < b" by simp
  have m: "round_mag a \<le> round_mag b" using assms by (rule round_mag_mono)
  from round_double_pos_cases [OF assms(1)] round_double_pos_cases [OF b] m
  show ?thesis by (auto simp: js_le_def js_lt_def)
qed

lemma round_double_sign:
  "(0 < q \<longrightarrow> js_le (Fin 0) (round_double q)) \<and> (q < 0 \<longrightarrow> js_le (round_double q) (Fin 0))"
proof -
  have p: "js_le (Fin 0) (round_double a)" if "0 < a" for a
    using round_double_pos_cases [OF that] round_mag_nonneg [OF that]
    by (auto simp: js_le_def js_lt_def)
  have "js_le (round_double q) (Fin 0)" if "q < 0"
  proof -
    from that have "0 < - q" by simp
    from p [OF this] show ?thesis
      unfolding round_double_neg by (cases "round_double q") (simp_all add: js_neg_def js_le_def js_lt_def)
  qed
  with p show ?thesis by blast
qed

lemma js_le_neg: "js_le x y \<Longrightarrow> js_le (js_neg y) (js_neg x)"
  by (cases x; cases y) (simp_all add: js_le_def js_lt_def js_neg_def)

lemma js_le_trans0: "js_le x (Fin 0) \<Longrightarrow> js_le (Fin 0) y \<Longrightarrow> js_le x y"
  by (cases x; cases y) (simp_all add: js_le_def js_lt_def)

lemma round_double_mono:
  assumes "a \<le> b"
  shows "js_le (round_double a) (round_double b)"
proof -
  consider "0 < a" | "b < 0" | "a \<le> 0" "0 \<le> b" by linarith
  then show ?thesis
  proof cases
    case 1
    then show ?thesis using assms by (rule round_double_mono_pos)
  next
    case 2
    then have "0 < - b" and "- b \<le> - a" using assms by simp_all
    then have "js_le (round_double (- b)) (round_double (- a))" by (rule round_double_mono_pos)
    then have "js_le (js_neg (round_double (- a))) (js_neg (round_double (- b)))" by (rule js_le_neg)
    then show ?thesis unfolding round_double_neg by (cases "round_double a"; cases "round_double b") (simp_all add: js_neg_def)
  next
    case 3
    have l: "js_le (round_double a) (Fin 0)"
    proof (cases "a = 0")
      case True
      then show ?thesis by (simp add: round_double_def js_le_def js_lt_def)
    next
      case False
      with 3(1) have "a < 0" by simp
      with round_double_sign [of a] show ?thesis by simp
    qed
    have u: "js_le (Fin 0) (round_double b)"
    proof (cases "b = 0")
      case True
      then show ?thesis by (simp add: round_double_def js_le_def js_lt_def)
    next
      case False
      with 3(2) have "0 < b" by simp
      with round_double_sign [of b] show ?thesis by simp
    qed
    from l u show ?thesis by (rule js_le_trans0)
  qed
qed

lemma is_double_0: "is_double 0"
  by (simp add: is_double_def round_double_def)

lemma is_double_neg: "is_double q \<Longrightarrow> is_double (- q)"
  by (simp add: is_double_def round_double_neg js_neg_def)

lemma is_double_pos: "0 < q \<Longrightarrow> is_double q \<longleftrightarrow> round_mag q = q \<and> q < pow2 1024"
  using round_double_pos_cases [of q] by (auto simp: is_double_def)

lemma round_double_idem_pos:
  assumes "0 < q" and "round_double q = Fin r"
  shows "is_double r"
proof (cases "r = 0")
  case True
  then show ?thesis by (simp add: is_double_0)
next
  case False
  from round_double_pos_cases [OF assms(1)] assms(2)
  have r: "r = round_mag q" and b: "r < pow2 1024" by auto
  from round_mag_nonneg [OF assms(1)] False r have p: "0 < r" by simp
  from False r have "round_mag q \<noteq> 0" by simp
  with assms(1) have "round_mag (round_mag q) = round_mag q" by (rule round_mag_idem)
  with r b p show ?thesis by (simp add: is_double_pos)
qed

lemma round_double_idem:
  assumes "round_double q = Fin r"
  shows "is_double r"
proof -
  consider "0 < q" | "q = 0" | "q < 0" by linarith
  then show ?thesis
  proof cases
    case 1
    then show ?thesis using assms by (rule round_double_idem_pos)
  next
    case 2
    with assms have "r = 0" by (simp add: round_double_def)
    then show ?thesis by (simp add: is_double_0)
  next
    case 3
    then have p: "0 < - q" by simp
    from assms have "round_double (- q) = Fin (- r)" by (simp add: round_double_neg js_neg_def)
    with p have "is_double (- r)" by (rule round_double_idem_pos)
    from is_double_neg [OF this] show ?thesis by simp
  qed
qed

lemma pow2_1024_shift: "2 * pow2 1023 = pow2 1024"
proof -
  have "pow2 1 * pow2 1023 = pow2 (1 + 1023)" by (rule pow2_add [symmetric])
  then show ?thesis by (simp add: pow2_1)
qed

lemma is_double_twice_pos:
  assumes "0 < q" and "is_double q" and "q < pow2 1023"
  shows "is_double (2 * q)"
proof -
  from assms(1,2) have "round_mag q = q" by (simp add: is_double_pos)
  with assms(1) have "round_mag (2 * q) = 2 * q" by (rule round_mag_twice)
  moreover from assms(3) have "2 * q < pow2 1024" unfolding pow2_1024_shift [symmetric] by simp
  moreover from assms(1) have "0 < 2 * q" by simp
  ultimately show ?thesis by (simp add: is_double_pos)
qed

lemma is_double_twice:
  assumes "is_double q" and "- pow2 1023 < q" and "q < pow2 1023"
  shows "is_double (2 * q)"
proof -
  consider "0 < q" | "q = 0" | "q < 0" by linarith
  then show ?thesis
  proof cases
    case 1
    then show ?thesis using assms(1,3) by (rule is_double_twice_pos)
  next
    case 2
    then show ?thesis by (simp add: is_double_0)
  next
    case 3
    then have "0 < - q" by simp
    moreover from assms(1) have "is_double (- q)" by (rule is_double_neg)
    moreover from assms(2) have "- q < pow2 1023" by simp
    ultimately have "is_double (2 * (- q))" by (rule is_double_twice_pos)
    from is_double_neg [OF this] show ?thesis by simp
  qed
qed

lemma is_double_bound: "is_double q \<Longrightarrow> - pow2 1024 < q \<and> q < pow2 1024"
proof -
  assume d: "is_double q"
  have u: "r < pow2 1024" if "is_double r" for r
  proof (cases "0 < r")
    case True
    with that show ?thesis by (simp add: is_double_pos)
  next
    case False
    then have "r \<le> 0" by simp
    also have "0 < pow2 1024" by (rule pow2_pos)
    finally show ?thesis .
  qed
  from u [OF d] u [OF is_double_neg [OF d]] show ?thesis by simp
qed

lemma round_double_overflow:
  assumes "pow2 1024 \<le> q"
  shows "round_double q = PInf"
proof -
  have p: "0 < pow2 1024" by (rule pow2_pos)
  have "pow2 1024 = of_int (2 ^ 52) * pow2 (1024 - 52)"
    using pow2_52_mult [of 1024] by (simp add: pow2_52)
  moreover have "round_mag (of_int (2 ^ 52) * pow2 (1024 - 52)) = of_int (2 ^ 52) * pow2 (1024 - 52)"
    by (rule round_mag_fixed) simp_all
  ultimately have "round_mag (pow2 1024) = pow2 1024" by (simp only:)
  with round_double_pos_cases [OF p] have "round_double (pow2 1024) = PInf" by auto
  with round_double_mono [OF assms] show ?thesis
    by (cases "round_double q") (simp_all add: js_le_def js_lt_def)
qed

lemma round_double_finite_bound:
  assumes "round_double q = Fin s"
  shows "- pow2 1024 < s \<and> s < pow2 1024"
  using is_double_bound [OF round_double_idem [OF assms]] .

lemma sum_between_doubles:
  assumes "is_double lo" and "is_double hi" and "lo \<le> hi" and "round_double (lo + hi) = Fin s"
  shows "2 * lo \<le> s \<and> s \<le> 2 * hi"
proof -
  note sb = round_double_finite_bound [OF assms(4)]
  have ov: "lo + hi < pow2 1024"
  proof (rule ccontr)
    assume "\<not> lo + hi < pow2 1024"
    then have "round_double (lo + hi) = PInf" by (intro round_double_overflow) simp
    with assms(4) show False by simp
  qed
  have un: "- pow2 1024 < lo + hi"
  proof (rule ccontr)
    assume "\<not> - pow2 1024 < lo + hi"
    then have "pow2 1024 \<le> - (lo + hi)" by simp
    then have "round_double (- (lo + hi)) = PInf" by (rule round_double_overflow)
    then have "js_neg (round_double (lo + hi)) = PInf" by (simp only: round_double_neg)
    with assms(4) show False by (simp add: js_neg_def)
  qed
  have lower: "2 * lo \<le> s"
  proof (cases "- pow2 1023 < lo")
    case True
    from ov assms(3) have "2 * lo < pow2 1024" by simp
    then have "lo < pow2 1023" unfolding pow2_1024_shift [symmetric] by simp
    with assms(1) True have "is_double (2 * lo)" by (intro is_double_twice)
    then have "round_double (2 * lo) = Fin (2 * lo)" by (simp add: is_double_def)
    moreover from assms(3) have "2 * lo \<le> lo + hi" by simp
    then have "js_le (round_double (2 * lo)) (round_double (lo + hi))" by (rule round_double_mono)
    ultimately show ?thesis using assms(4) by (simp add: js_le_def js_lt_def)
  next
    case False
    then have "2 * lo \<le> - (2 * pow2 1023)" by simp
    then have "2 * lo \<le> - pow2 1024" unfolding pow2_1024_shift .
    with sb show ?thesis by simp
  qed
  have upper: "s \<le> 2 * hi"
  proof (cases "hi < pow2 1023")
    case True
    from un assms(3) have "- pow2 1024 < 2 * hi" by simp
    then have "- pow2 1023 < hi" unfolding pow2_1024_shift [symmetric] by simp
    with assms(2) True have "is_double (2 * hi)" by (intro is_double_twice)
    then have "round_double (2 * hi) = Fin (2 * hi)" by (simp add: is_double_def)
    moreover from assms(3) have "lo + hi \<le> 2 * hi" by simp
    then have "js_le (round_double (lo + hi)) (round_double (2 * hi))" by (rule round_double_mono)
    ultimately show ?thesis using assms(4) by (simp add: js_le_def js_lt_def)
  next
    case False
    then have "2 * pow2 1023 \<le> 2 * hi" by simp
    then have "pow2 1024 \<le> 2 * hi" unfolding pow2_1024_shift .
    with sb show ?thesis by simp
  qed
  from lower upper show ?thesis by (rule conjI)
qed

lemma average_between:
  assumes "double_number lo" and "double_number hi" and "js_le lo hi"
    and "js_add lo hi = Fin s"
  shows "js_le lo (js_div (js_add lo hi) (Fin 2)) \<and> js_le (js_div (js_add lo hi) (Fin 2)) hi"
proof -
  from assms(4) obtain a b where lo: "lo = Fin a" and hi: "hi = Fin b"
    by (cases lo; cases hi) (simp_all add: js_add_def)
  from assms(1,2) lo hi have d: "is_double a" "is_double b" by (simp_all add: double_number_def)
  from assms(3) lo hi have le: "a \<le> b" by (simp add: js_le_def js_lt_def)
  from assms(4) lo hi have s: "round_double (a + b) = Fin s" by (simp add: js_add_def)
  from sum_between_doubles [OF d le s] have h: "a \<le> s / 2" "s / 2 \<le> b" by simp_all
  have "js_le (round_double a) (round_double (s / 2))"
    using h(1) by (rule round_double_mono)
  moreover have "js_le (round_double (s / 2)) (round_double b)"
    using h(2) by (rule round_double_mono)
  moreover have "js_div (js_add lo hi) (Fin 2) = round_double (s / 2)"
    unfolding assms(4) by (simp add: js_div_def)
  ultimately show ?thesis using d lo hi by (simp add: is_double_def)
qed

lemma round_double_shape:
  assumes "q \<noteq> 0"
  obtains n e where "- 1022 \<le> e" and "0 \<le> n" and "pow2 (- 1074) \<le> \<bar>q\<bar> \<longrightarrow> 1 \<le> n"
    and "round_double q = (if 0 < q then PInf else NInf) \<or>
         round_double q = Fin (if 0 < q then of_int n * pow2 (e - 52) else - (of_int n * pow2 (e - 52)))"
proof -
  let ?a = "\<bar>q\<bar>"
  let ?e = "max (flog2 ?a) (- 1022)"
  let ?u = "pow2 (?e - 52)"
  let ?n = "rhe (?a / ?u)"
  from assms have a: "0 < ?a" by simp
  have u: "0 < ?u" by (rule pow2_pos)
  have 1: "- 1022 \<le> ?e" by simp
  have "of_int 0 \<le> ?a / ?u" using a u by simp
  then have 2: "0 \<le> ?n" by (rule rhe_ge)
  have 3: "1 \<le> ?n" if g: "pow2 (- 1074) \<le> ?a"
  proof -
    have "?u \<le> ?a"
    proof (cases "- 1022 \<le> flog2 ?a")
      case True
      then have "?u = pow2 (flog2 ?a - 52)" by (simp add: max_def)
      also have "\<dots> \<le> pow2 (flog2 ?a)" by (rule pow2_mono) simp
      also have "\<dots> \<le> ?a" using a by (rule flog2_lower)
      finally show ?thesis .
    next
      case False
      then have "?u = pow2 (- 1074)" by (simp add: max_def)
      with g show ?thesis by simp
    qed
    then have "of_int 1 \<le> ?a / ?u" using u by (simp add: field_simps)
    then show ?thesis by (rule rhe_ge)
  qed
  have 4: "round_double q = (if 0 < q then PInf else NInf) \<or>
         round_double q = Fin (if 0 < q then of_int ?n * ?u else - (of_int ?n * ?u))"
    using assms by (simp add: round_double_def round_mag_def Let_def)
  from 1 2 3 4 show ?thesis using that [of ?e ?n] by blast
qed

lemma on_grid_0: "on_grid 0"
  unfolding on_grid_def by (rule exI [of _ 0]) simp

lemma on_grid_of_int: "on_grid (of_int k)"
proof -
  have "pow2 1074 * pow2 (- 1074) = 1" by (simp add: pow2_add [symmetric] pow2_def)
  then have "(of_int k :: rat) = of_int (k * 2 ^ 1074) * pow2 (- 1074)"
    by (simp add: pow2_nat)
  then show ?thesis unfolding on_grid_def by (rule exI)
qed

lemma on_grid_minus: "on_grid q \<Longrightarrow> on_grid (- q)"
proof -
  assume "on_grid q"
  then obtain m where "q = of_int m * pow2 (- 1074)" unfolding on_grid_def by blast
  then have "- q = of_int (- m) * pow2 (- 1074)" by simp
  then show ?thesis unfolding on_grid_def by (rule exI)
qed

lemma on_grid_add: "on_grid a \<Longrightarrow> on_grid b \<Longrightarrow> on_grid (a + b)"
proof -
  assume "on_grid a" "on_grid b"
  then obtain m n where "a = of_int m * pow2 (- 1074)" "b = of_int n * pow2 (- 1074)"
    unfolding on_grid_def by blast
  then have "a + b = of_int (m + n) * pow2 (- 1074)" by (simp add: algebra_simps)
  then show ?thesis unfolding on_grid_def by (rule exI)
qed

lemma on_grid_pos: "on_grid q \<Longrightarrow> 0 < q \<Longrightarrow> pow2 (- 1074) \<le> q"
proof -
  assume "on_grid q" and q: "0 < q"
  then obtain m where m: "q = of_int m * pow2 (- 1074)" unfolding on_grid_def by blast
  with q pow2_pos [of "- 1074"] have "0 < (of_int m :: rat)" by (simp add: zero_less_mult_iff)
  then have "1 \<le> m" by simp
  then have "(1 :: rat) \<le> of_int m" by simp
  then have "1 * pow2 (- 1074) \<le> of_int m * pow2 (- 1074)"
    using pow2_pos [of "- 1074"] by (simp only: mult_le_cancel_right) simp
  with m show ?thesis by simp
qed

lemma round_double_grid: "round_double q = Fin r \<Longrightarrow> on_grid r"
proof (cases "q = 0")
  case True
  assume "round_double q = Fin r"
  with True show ?thesis by (simp add: round_double_def on_grid_0)
next
  case False
  assume r: "round_double q = Fin r"
  from False obtain n e where e: "- 1022 \<le> e"
    and s: "round_double q = (if 0 < q then PInf else NInf) \<or>
         round_double q = Fin (if 0 < q then of_int n * pow2 (e - 52) else - (of_int n * pow2 (e - 52)))"
    by (rule round_double_shape)
  have "pow2 (e - 52) = pow2 (e + 1022) * pow2 (- 1074)" by (simp add: pow2_add [symmetric])
  also have "pow2 (e + 1022) = of_int (2 ^ nat (e + 1022))" using e by (simp add: pow2_nat)
  finally have "of_int n * pow2 (e - 52) = of_int (n * 2 ^ nat (e + 1022)) * pow2 (- 1074)"
    by simp
  then have g: "on_grid (of_int n * pow2 (e - 52))" unfolding on_grid_def by (rule exI)
  from r s have "r = of_int n * pow2 (e - 52) \<or> r = - (of_int n * pow2 (e - 52))"
    by (auto split: if_splits)
  with g on_grid_minus [OF g] show ?thesis by auto
qed

lemma is_double_grid: "is_double q \<Longrightarrow> on_grid q"
  unfolding is_double_def by (rule round_double_grid)

lemma round_double_pos: "pow2 (- 1074) \<le> q \<Longrightarrow> js_lt (Fin 0) (round_double q)"
proof -
  assume g: "pow2 (- 1074) \<le> q"
  with pow2_pos [of "- 1074"] have q: "0 < q" by linarith
  then have "q \<noteq> 0" by simp
  then obtain n e where n: "pow2 (- 1074) \<le> \<bar>q\<bar> \<longrightarrow> 1 \<le> n"
    and s: "round_double q = (if 0 < q then PInf else NInf) \<or>
         round_double q = Fin (if 0 < q then of_int n * pow2 (e - 52) else - (of_int n * pow2 (e - 52)))"
    by (rule round_double_shape)
  from n g q have "1 \<le> n" by simp
  then have "0 < (of_int n :: rat)" by simp
  then have "0 < of_int n * pow2 (e - 52)" using pow2_pos [of "e - 52"] by simp
  with s q show ?thesis by (auto simp: js_lt_def)
qed

lemma round_double_nonpos: "q \<le> 0 \<Longrightarrow> \<not> js_lt (Fin 0) (round_double q)"
proof (cases "q = 0")
  case True
  then show ?thesis by (simp add: round_double_def js_lt_def)
next
  case False
  assume "q \<le> 0"
  with False have q: "\<not> 0 < q" by simp
  from False obtain n e where n: "0 \<le> n"
    and s: "round_double q = (if 0 < q then PInf else NInf) \<or>
         round_double q = Fin (if 0 < q then of_int n * pow2 (e - 52) else - (of_int n * pow2 (e - 52)))"
    by (rule round_double_shape)
  from n have "0 \<le> (of_int n :: rat)" by simp
  then have "0 \<le> of_int n * pow2 (e - 52)" using pow2_pos [of "e - 52"] by simp
  with s q show ?thesis by (auto simp: js_lt_def)
qed

lemma round_double_sub_sign:
  assumes "on_grid a" "on_grid b"
  shows "js_lt (Fin 0) (round_double (a - b)) \<longleftrightarrow> b < a"
proof (cases "b < a")
  case True
  have "on_grid (a + - b)" using assms by (intro on_grid_add on_grid_minus)
  with True have "pow2 (- 1074) \<le> a - b" using on_grid_pos [of "a - b"] by simp
  with True show ?thesis by (simp add: round_double_pos)
next
  case False
  then have "a - b \<le> 0" by simp
  with False show ?thesis by (simp add: round_double_nonpos)
qed

lemma compare_sign:
  assumes "good_number x" "good_number y"
  shows "js_lt (Fin 0) (js_sub x y) \<longleftrightarrow> js_lt y x"
proof (cases x)
  case (Fin a)
  show ?thesis
  proof (cases y)
    case (Fin b)
    with \<open>x = Fin a\<close> assms show ?thesis
      using round_double_sub_sign [of a b]
      by (simp add: good_number_def js_sub_def js_add_def js_neg_def js_lt_def)
  qed (use \<open>x = Fin a\<close> assms in \<open>simp_all add: good_number_def js_sub_def js_add_def js_neg_def js_lt_def\<close>)
qed (use assms in \<open>cases y; simp add: good_number_def js_sub_def js_add_def js_neg_def js_lt_def\<close>)+


lemma js_le_refl: "x \<noteq> NaN \<Longrightarrow> js_le x x"
  by (cases x) (simp_all add: js_le_def js_lt_def)

lemma js_le_trans: "js_le x y \<Longrightarrow> js_le y z \<Longrightarrow> js_le x z"
  by (cases x; cases y; cases z) (simp_all add: js_le_def js_lt_def)

lemma js_lt_le: "js_lt x y \<Longrightarrow> js_le x y"
  by (cases x; cases y) (simp_all add: js_le_def js_lt_def)

lemma good_number_not_NaN: "good_number x \<Longrightarrow> x \<noteq> NaN"
  by (cases x) (simp_all add: good_number_def)

lemma sorted_insert_by:
  assumes "good_number x" "\<forall>y\<in>set ys. good_number y" "sorted_wrt js_le ys"
  shows "sorted_wrt js_le (insert_by (\<lambda>x y. js_lt (Fin 0) (js_sub x y)) x ys)"
  using assms(2,3)
proof (induction ys)
  case Nil
  show ?case by simp
next
  case (Cons y ys)
  let ?gt = "\<lambda>x y. js_lt (Fin 0) (js_sub x y)"
  from Cons.prems have gy: "good_number y" by simp
  note sign = compare_sign [OF assms(1) gy]
  show ?case
  proof (cases "?gt x y")
    case True
    then have "js_le y x" using sign by (simp add: js_lt_le)
    moreover have "sorted_wrt js_le (insert_by ?gt x ys)" using Cons by simp
    ultimately show ?thesis using True Cons.prems by (simp add: set_insert_by)
  next
    case False
    then have xy: "js_le x y"
      using sign good_number_not_NaN [OF assms(1)] good_number_not_NaN [OF gy]
      by (simp add: js_le_def)
    then have "\<forall>z\<in>set ys. js_le x z" using Cons.prems by (auto intro: js_le_trans)
    with xy False Cons.prems show ?thesis by simp
  qed
qed

lemma sorted_Array_sort:
  "\<forall>x\<in>set xs. good_number x \<Longrightarrow> sorted_wrt js_le (Array_sort js_sub xs)"
proof (induction xs)
  case Nil
  show ?case by (simp add: Array_sort_def)
next
  case (Cons x xs)
  then have s: "sorted_wrt js_le (Array_sort js_sub xs)" by simp
  from Cons.prems have "\<forall>y\<in>set (Array_sort js_sub xs). good_number y"
    by (simp add: set_Array_sort)
  with Cons.prems s have "sorted_wrt js_le
      (insert_by (\<lambda>x y. js_lt (Fin 0) (js_sub x y)) x (Array_sort js_sub xs))"
    by (intro sorted_insert_by) simp_all
  then show ?case by (simp add: Array_sort_def)
qed

lemma round_double_good: "good_number (round_double q)"
proof (cases "round_double q")
  case NaN
  then show ?thesis by (simp add: round_double_def Let_def split: if_splits)
next
  case (Fin r)
  then show ?thesis using round_double_grid [of q r] by (simp add: good_number_def)
qed (simp_all add: good_number_def)

lemma good_js_neg: "good_number x \<Longrightarrow> good_number (js_neg x)"
  by (cases x) (simp_all add: good_number_def js_neg_def on_grid_minus)

lemma good_simple: "good_number PInf" "good_number NInf" "good_number (Fin 0)"
  by (simp_all add: good_number_def on_grid_0)

lemma StrUnsignedDecimalLiteral_good:
  "StrUnsignedDecimalLiteral s = Some v \<Longrightarrow> good_number v"
  by (auto simp: StrUnsignedDecimalLiteral_def Let_def good_simple round_double_good
      split: if_splits option.splits)

lemma StrDecimalLiteral_good: "StrDecimalLiteral s = Some v \<Longrightarrow> good_number v"
  by (auto simp: StrDecimalLiteral_def good_js_neg StrUnsignedDecimalLiteral_good
      split: if_splits)

lemma NonDecimalIntegerLiteral_good: "NonDecimalIntegerLiteral s = Some v \<Longrightarrow> good_number v"
  by (auto simp: NonDecimalIntegerLiteral_def Let_def round_double_good split: if_splits)

lemma StringToNumber_good: "StringToNumber s \<noteq> NaN \<Longrightarrow> good_number (StringToNumber s)"
  by (auto simp: StringToNumber_def Let_def good_simple
      dest: StrDecimalLiteral_good NonDecimalIntegerLiteral_good split: option.splits if_splits)

lemma Number_good: "double_cell v \<Longrightarrow> Number v \<noteq> NaN \<Longrightarrow> good_number (Number v)"
proof (cases v)
  case (Num x)
  assume "double_cell v" "Number v \<noteq> NaN"
  with Num show ?thesis
    by (cases x) (simp_all add: Number_def double_cell_def good_number_def is_double_grid)
next
  case (Str s)
  assume "Number v \<noteq> NaN"
  with Str show ?thesis using StringToNumber_good [of s] by (simp add: Number_def)
next
  case (Bool b)
  then show ?thesis using on_grid_of_int [of 1] on_grid_0
    by (simp add: Number_def good_number_def)
qed (simp_all add: Number_def good_number_def on_grid_0)

lemma validValues_good:
  "\<forall>row\<in>set data. double_cell (cell row c) \<Longrightarrow> \<forall>v\<in>set (validValues data c). good_number v"
  by (auto simp: validValues_def isNaN_def Number_good)

lemma round_double_double: "double_number (round_double q)"
proof (cases "round_double q")
  case NaN
  then show ?thesis by (simp add: round_double_def Let_def split: if_splits)
next
  case (Fin r)
  then show ?thesis using round_double_idem [of q r] by (simp add: double_number_def)
qed (simp_all add: double_number_def)

lemma double_js_neg: "double_number x \<Longrightarrow> double_number (js_neg x)"
  by (cases x) (simp_all add: double_number_def js_neg_def is_double_neg)

lemma double_simple: "double_number PInf" "double_number NInf" "double_number (Fin 0)"
  by (simp_all add: double_number_def is_double_0)

lemma StrUnsignedDecimalLiteral_double:
  "StrUnsignedDecimalLiteral s = Some v \<Longrightarrow> double_number v"
  by (auto simp: StrUnsignedDecimalLiteral_def Let_def double_simple round_double_double
      split: if_splits option.splits)

lemma StrDecimalLiteral_double: "StrDecimalLiteral s = Some v \<Longrightarrow> double_number v"
  by (auto simp: StrDecimalLiteral_def double_js_neg StrUnsignedDecimalLiteral_double
      split: if_splits)

lemma NonDecimalIntegerLiteral_double: "NonDecimalIntegerLiteral s = Some v \<Longrightarrow> double_number v"
  by (auto simp: NonDecimalIntegerLiteral_def Let_def round_double_double split: if_splits)

lemma StringToNumber_double: "StringToNumber s \<noteq> NaN \<Longrightarrow> double_number (StringToNumber s)"
  by (auto simp: StringToNumber_def Let_def double_simple
      dest: StrDecimalLiteral_double NonDecimalIntegerLiteral_double split: option.splits if_splits)

lemma is_double_1: "is_double 1"
proof -
  have "round_mag (of_int (2 ^ 52) * pow2 (0 - 52)) = of_int (2 ^ 52) * pow2 (0 - 52)"
    by (rule round_mag_fixed) simp_all
  moreover have "of_int (2 ^ 52) * pow2 (0 - 52) = 1"
    using pow2_52_mult [of 0] by (simp add: pow2_52 pow2_def)
  ultimately have "round_mag 1 = 1" by (simp only:)
  moreover have "(1 :: rat) < pow2 1024" by (simp add: pow2_def)
  ultimately show ?thesis by (simp add: is_double_pos)
qed

lemma Number_double: "double_cell v \<Longrightarrow> Number v \<noteq> NaN \<Longrightarrow> double_number (Number v)"
proof (cases v)
  case (Num x)
  assume "double_cell v" "Number v \<noteq> NaN"
  with Num show ?thesis
    by (cases x) (simp_all add: Number_def double_cell_def double_number_def)
next
  case (Str s)
  assume "Number v \<noteq> NaN"
  with Str show ?thesis using StringToNumber_double [of s] by (simp add: Number_def)
next
  case (Bool b)
  then show ?thesis using is_double_1 is_double_0
    by (simp add: Number_def double_number_def)
qed (simp_all add: Number_def double_number_def is_double_0)

lemma validValues_double:
  "\<forall>row\<in>set data. double_cell (cell row c) \<Longrightarrow> \<forall>v\<in>set (validValues data c). double_number v"
  by (auto simp: validValues_def isNaN_def Number_double)


lemma js_min2_le:
  "a \<noteq> NaN \<Longrightarrow> v \<noteq> NaN \<Longrightarrow>
   js_min2 a v \<noteq> NaN \<and> js_le (js_min2 a v) a \<and> js_le (js_min2 a v) v"
  by (cases a; cases v) (simp_all add: js_min2_def js_le_def js_lt_def)

lemma js_max2_ge:
  "a \<noteq> NaN \<Longrightarrow> v \<noteq> NaN \<Longrightarrow>
   js_max2 a v \<noteq> NaN \<and> js_le a (js_max2 a v) \<and> js_le v (js_max2 a v)"
  by (cases a; cases v) (simp_all add: js_max2_def js_le_def js_lt_def)

lemma foldl_js_min2:
  assumes "a \<noteq> NaN" "\<forall>v\<in>set vs. v \<noteq> NaN"
  shows "foldl js_min2 a vs \<noteq> NaN \<and> js_le (foldl js_min2 a vs) a \<and>
         (\<forall>v\<in>set vs. js_le (foldl js_min2 a vs) v)"
  using assms
proof (induction vs arbitrary: a)
  case Nil
  then show ?case by (simp add: js_le_refl)
next
  case (Cons v vs)
  let ?b = "js_min2 a v"
  from Cons.prems have b: "?b \<noteq> NaN" "js_le ?b a" "js_le ?b v"
    using js_min2_le [of a v] by simp_all
  from Cons.prems have "\<forall>v\<in>set vs. v \<noteq> NaN" by simp
  from Cons.IH [OF b(1) this] b show ?case by (auto intro: js_le_trans)
qed

lemma foldl_js_max2:
  assumes "a \<noteq> NaN" "\<forall>v\<in>set vs. v \<noteq> NaN"
  shows "foldl js_max2 a vs \<noteq> NaN \<and> js_le a (foldl js_max2 a vs) \<and>
         (\<forall>v\<in>set vs. js_le v (foldl js_max2 a vs))"
  using assms
proof (induction vs arbitrary: a)
  case Nil
  then show ?case by (simp add: js_le_refl)
next
  case (Cons v vs)
  let ?b = "js_max2 a v"
  from Cons.prems have b: "?b \<noteq> NaN" "js_le a ?b" "js_le v ?b"
    using js_max2_ge [of a v] by simp_all
  from Cons.prems have "\<forall>v\<in>set vs. v \<noteq> NaN" by simp
  from Cons.IH [OF b(1) this] b show ?case by (auto intro: js_le_trans)
qed

lemma Math_min_le: "\<forall>v\<in>set vs. v \<noteq> NaN \<Longrightarrow> v \<in> set vs \<Longrightarrow> js_le (Math_min vs) v"
  using foldl_js_min2 [of PInf vs] by (simp add: Math_min_def)

lemma Math_max_ge: "\<forall>v\<in>set vs. v \<noteq> NaN \<Longrightarrow> v \<in> set vs \<Longrightarrow> js_le v (Math_max vs)"
  using foldl_js_max2 [of NInf vs] by (simp add: Math_max_def)

lemma sorted_nth_le:
  assumes "sorted_wrt js_le sv" "\<forall>v\<in>set sv. v \<noteq> NaN" "i \<le> j" "j < length sv"
  shows "js_le (sv ! i) (sv ! j)"
proof (cases "i = j")
  case True
  with assms show ?thesis by (simp add: js_le_refl)
next
  case False
  with assms have "i < j" by simp
  with assms show ?thesis by (simp add: sorted_wrt_nth_less)
qed

lemma validValues_not_NaN: "\<forall>v\<in>set (validValues data c). v \<noteq> NaN"
  by (simp add: validValues_def isNaN_def)

lemma floor_quarter: "nat \<lfloor>(of_nat n :: rat) * (1 / 4)\<rfloor> = n div 4"
  using q1_index_eq [of n] by (simp add: q1_index_def)

lemma floor_three_quarters: "nat \<lfloor>(of_nat n :: rat) * (3 / 4)\<rfloor> = 3 * n div 4"
  using q3_index_eq [of n] by (simp add: q3_index_def)

lemma floor_half: "nat \<lfloor>(of_nat n :: rat) / 2\<rfloor> = n div 2"
  using median_mid_index_eq [of n] by (simp add: median_mid_index_def)

lemma median_of_eq:
  assumes "sv \<noteq> []"
  shows "median_of sv = (if length sv mod 2 = 0
     then Num (js_div (js_add (sv ! (length sv div 2 - 1)) (sv ! (length sv div 2))) (Fin 2))
     else Num (sv ! (length sv div 2)))"
proof -
  let ?n = "length sv"
  from assms have n: "0 < ?n" by simp
  then have h: "?n div 2 < ?n" by simp
  show ?thesis
  proof (cases "?n mod 2 = 0")
    case True
    have l: "?n div 2 - 1 < ?n" by (rule le_less_trans [OF diff_le_self h])
    have "array_get sv (median_lo_index ?n) = Num (sv ! (?n div 2 - 1))"
      using True n l by (simp only: median_lo_index_eq array_get_of_nat)
    moreover have "array_get sv (median_hi_index ?n) = Num (sv ! (?n div 2))"
      using True h by (simp only: median_hi_index_eq array_get_of_nat)
    ultimately show ?thesis
      using True by (simp add: median_of_def Let_def js_divide_def js_plus_def is_text_def Number_def)
  next
    case False
    have "array_get sv (median_mid_index ?n) = Num (sv ! (?n div 2))"
      using h by (simp only: median_mid_index_eq array_get_of_nat)
    with False show ?thesis by (simp add: median_of_def Let_def)
  qed
qed

lemma columnStats_Numeric:
  assumes "columnStats data c = Some (Numeric st)"
  shows "numericStats data c = Some st"
  using assms by (auto simp: columnStats_def split: if_splits)

lemma numericStats_fields:
  assumes "numericStats data c = Some st"
  defines "vs \<equiv> validValues data c"
  defines "sv \<equiv> Array_sort js_sub (validValues data c)"
  shows "vs \<noteq> []" and "ns_count st = length vs" and "ns_median st = median_of sv"
    and "ns_q1 st = array_get sv (q1_index (length sv))"
    and "ns_q3 st = array_get sv (q3_index (length sv))"
    and "ns_min st = Math_min vs" and "ns_max st = Math_max vs"
    and "ns_sum st = foldl js_add (Fin 0) vs"
    and "ns_mean st = js_div (foldl js_add (Fin 0) vs) (Fin (of_nat (length vs)))"
    and "ns_stdDev st = Math_sqrt (js_div
          (foldl js_add (Fin 0) (map (\<lambda>val. Math_pow2 (js_sub val (ns_mean st))) vs))
          (Fin (of_nat (length vs))))"
    and "ns_emptyCount st = length data - length vs"
    and "ns_range st = js_sub (Math_max vs) (Math_min vs)"
  using assms(1) unfolding vs_def sv_def
  by (auto simp: numericStats_def Let_def split: if_splits)


lemma nat_index_bounds:
  fixes n :: nat
  assumes "0 < n"
  shows "n div 4 < n" and "3 * n div 4 < n" and "n div 2 < n" and "1 \<le> n"
    and "n div 4 \<le> (if n mod 2 = 0 then n div 2 - 1 else n div 2)"
  using assms by (simp_all, presburger)

lemma nat_mid_bounds:
  fixes n :: nat
  assumes "0 < n"
  shows "(n - 1) div 2 < n"
    and "(n - 1) div 2 = (if n mod 2 = 0 then n div 2 - 1 else n div 2)"
    and "odd n \<Longrightarrow> (n - 1) div 2 = n div 2"
  using assms by presburger+

text \<open>
  Claim C5: for a numeric column whose statistics exist, the sorted sequence is the
  ascending arrangement of the \<open>n \<ge> 1\<close> valid values; the median is the average of the two
  central elements when \<open>n\<close> is even and the element at \<open>floor(n / 2)\<close> when \<open>n\<close> is odd;
  \<open>q1\<close> and \<open>q3\<close> are the elements at \<open>floor(n * 0.25)\<close> and \<open>floor(n * 0.75)\<close>. No value is
  interpolated. (The finite numbers among the cells are doubles.)
\<close>

theorem positional_quantiles:
  assumes "columnStats data selectedColumn = Some (Numeric st)"
    and "\<forall>row\<in>set data. double_cell (cell row selectedColumn)"
  shows "(let sortedValues = Array_sort js_sub (validValues data selectedColumn);
              n = length sortedValues
          in 1 \<le> n \<and> n = ns_count st \<and>
             mset sortedValues = mset (validValues data selectedColumn) \<and>
             sorted_wrt js_le sortedValues \<and>
             ns_median st =
               (if n mod 2 = 0
                then Num (js_div (js_add (sortedValues ! (n div 2 - 1)) (sortedValues ! (n div 2)))
                                 (Fin 2))
                else Num (sortedValues ! nat \<lfloor>(of_nat n :: rat) / 2\<rfloor>)) \<and>
             ns_q1 st = Num (sortedValues ! nat \<lfloor>(of_nat n :: rat) * (1 / 4)\<rfloor>) \<and>
             ns_q3 st = Num (sortedValues ! nat \<lfloor>(of_nat n :: rat) * (3 / 4)\<rfloor>))"
proof -
  let ?vs = "validValues data selectedColumn"
  let ?sv = "Array_sort js_sub ?vs"
  let ?n = "length ?sv"
  note f = numericStats_fields [OF columnStats_Numeric [OF assms(1)]]
  have len: "?n = length ?vs" by (rule length_Array_sort)
  with f(1) have n: "0 < ?n" by simp
  then have ne: "?sv \<noteq> []" by simp
  have 1: "1 \<le> ?n" by (rule nat_index_bounds(4) [OF n])
  have 2: "?n = ns_count st" using f(2) len by simp
  have 3: "mset ?sv = mset ?vs" by (rule mset_Array_sort)
  have 4: "sorted_wrt js_le ?sv" using validValues_good [OF assms(2)] by (rule sorted_Array_sort)
  have 5: "ns_median st =
      (if ?n mod 2 = 0
       then Num (js_div (js_add (?sv ! (?n div 2 - 1)) (?sv ! (?n div 2))) (Fin 2))
       else Num (?sv ! nat \<lfloor>(of_nat ?n :: rat) / 2\<rfloor>))"
    using f(3) median_of_eq [OF ne] by (simp only: floor_half)
  have "?n div 4 < ?n" by (rule nat_index_bounds(1) [OF n])
  then have 6: "ns_q1 st = Num (?sv ! nat \<lfloor>(of_nat ?n :: rat) * (1 / 4)\<rfloor>)"
    using f(4) by (simp only: floor_quarter q1_index_eq array_get_of_nat)
  have "3 * ?n div 4 < ?n" by (rule nat_index_bounds(2) [OF n])
  then have 7: "ns_q3 st = Num (?sv ! nat \<lfloor>(of_nat ?n :: rat) * (3 / 4)\<rfloor>)"
    using f(5) by (simp only: floor_three_quarters q3_index_eq array_get_of_nat)
  from 1 2 3 4 5 6 7 show ?thesis unfolding Let_def by (intro conjI)
qed

text \<open>
  The claim on the column \<open>4, "1.5", 3, 2\<close>.
\<close>

theorem positional_quantiles_witness:
  "columnStats
     [[(''a'', Num (Fin 4))], [(''a'', Str ''1.5'')], [(''a'', Num (Fin 3))], [(''a'', Num (Fin 2))]]
     ''a'' =
     Some (Numeric \<lparr>ns_count = 4, ns_emptyCount = 0, ns_min = Fin (3 / 2), ns_max = Fin 4,
       ns_range = Fin (5 / 2), ns_sum = Fin (21 / 2), ns_mean = Fin (21 / 8),
       ns_median = Num (Fin (5 / 2)), ns_stdDev = Fin (8648201281969883 / 9007199254740992),
       ns_q1 = Num (Fin 2), ns_q3 = Num (Fin 4)\<rparr>) \<and>
   list_all (\<lambda>row. double_cell (cell row ''a''))
     [[(''a'', Num (Fin 4))], [(''a'', Str ''1.5'')], [(''a'', Num (Fin 3))], [(''a'', Num (Fin 2))]] \<and>
   Array_sort js_sub (validValues
     [[(''a'', Num (Fin 4))], [(''a'', Str ''1.5'')], [(''a'', Num (Fin 3))], [(''a'', Num (Fin 2))]]
     ''a'') = [Fin (3 / 2), Fin 2, Fin 3, Fin 4] \<and>
   sorted_wrt js_le [Fin (3 / 2), Fin 2, Fin 3, Fin 4]"
proof -
  let ?D = "[[(''a'', Num (Fin 4))], [(''a'', Str ''1.5'')], [(''a'', Num (Fin 3))], [(''a'', Num (Fin 2))]]"
  let ?st = "\<lparr>ns_count = 4, ns_emptyCount = 0, ns_min = Fin (3 / 2), ns_max = Fin 4,
       ns_range = Fin (5 / 2), ns_sum = Fin (21 / 2), ns_mean = Fin (21 / 8),
       ns_median = Num (Fin (5 / 2)), ns_stdDev = Fin (8648201281969883 / 9007199254740992),
       ns_q1 = Num (Fin 2), ns_q3 = Num (Fin 4)\<rparr>"
  have h1: "columnStats ?D ''a'' = Some (Numeric ?st)" by code_simp
  have h2: "list_all (\<lambda>row. double_cell (cell row ''a'')) ?D" by code_simp
  then have h2': "\<forall>row\<in>set ?D. double_cell (cell row ''a'')" by (simp only: list_all_iff)
  have e: "Array_sort js_sub (validValues ?D ''a'') = [Fin (3 / 2), Fin 2, Fin 3, Fin 4]"
    by code_simp
  from positional_quantiles [OF h1 h2']
  have "sorted_wrt js_le (Array_sort js_sub (validValues ?D ''a''))"
    unfolding Let_def by (elim conjE)
  then have "sorted_wrt js_le [Fin (3 / 2), Fin 2, Fin 3, Fin 4]" by (simp only: e)
  with h1 h2 e show ?thesis by (intro conjI)
qed

text \<open>
  Claim C3, amended: for a numeric column whose statistics exist,
  \<open>min \<le> q1 \<le> lo \<le> hi \<le> q3 \<le> max\<close>, where \<open>lo\<close> and \<open>hi\<close> are the central elements of the
  sorted sequence, the same element when the count is odd. For an odd count the median is
  that element, so that \<open>min \<le> q1 \<le> median \<le> q3 \<le> max\<close>. For an even count the median is
  the floating-point value \<open>(lo + hi) / 2\<close>; when the floating-point sum \<open>lo + hi\<close> is finite,
  \<open>lo \<le> median \<le> hi\<close> and again \<open>min \<le> q1 \<le> median \<le> q3 \<le> max\<close>. The mean is the
  floating-point quotient of the floating-point sum of the valid values by their count.
  (The finite numbers among the cells are doubles.)
\<close>

theorem ordered_quartiles:
  assumes "columnStats data selectedColumn = Some (Numeric st)"
    and "\<forall>row\<in>set data. double_cell (cell row selectedColumn)"
  shows "(let sortedValues = Array_sort js_sub (validValues data selectedColumn);
              n = length sortedValues;
              q1 = sortedValues ! (n div 4); q3 = sortedValues ! (3 * n div 4);
              lo = sortedValues ! ((n - 1) div 2); hi = sortedValues ! (n div 2)
          in ns_q1 st = Num q1 \<and> ns_q3 st = Num q3 \<and>
             js_le (ns_min st) q1 \<and> js_le q1 lo \<and> js_le lo hi \<and> js_le hi q3 \<and>
             js_le q3 (ns_max st) \<and>
             ns_median st = (if even n then Num (js_div (js_add lo hi) (Fin 2)) else Num lo) \<and>
             (odd n \<longrightarrow> lo = hi) \<and>
             (odd n \<or> (\<exists>s. js_add lo hi = Fin s) \<longrightarrow>
                (\<exists>m. ns_median st = Num m \<and> js_le lo m \<and> js_le m hi \<and>
                     js_le (ns_min st) q1 \<and> js_le q1 m \<and> js_le m q3 \<and> js_le q3 (ns_max st))) \<and>
             ns_mean st =
               js_div (foldl js_add (Fin 0) (validValues data selectedColumn)) (Fin (of_nat n)))"
proof -
  let ?vs = "validValues data selectedColumn"
  let ?sv = "Array_sort js_sub ?vs"
  let ?n = "length ?sv"
  let ?lo = "?sv ! ((?n - 1) div 2)" and ?hi = "?sv ! (?n div 2)"
  let ?q1 = "?sv ! (?n div 4)" and ?q3 = "?sv ! (3 * ?n div 4)"
  note f = numericStats_fields [OF columnStats_Numeric [OF assms(1)]]
  have len: "?n = length ?vs" by (rule length_Array_sort)
  with f(1) have n: "0 < ?n" by simp
  then have ne: "?sv \<noteq> []" by simp
  have nn: "\<forall>v\<in>set ?sv. v \<noteq> NaN" using validValues_not_NaN by (simp add: set_Array_sort)
  have dd: "\<forall>v\<in>set ?sv. double_number v"
    using validValues_double [OF assms(2)] by (simp add: set_Array_sort)
  have srt: "sorted_wrt js_le ?sv" using validValues_good [OF assms(2)] by (rule sorted_Array_sort)
  have i1: "?n div 4 < ?n" and i3: "3 * ?n div 4 < ?n" and ih: "?n div 2 < ?n"
    by (rule nat_index_bounds [OF n])+
  have il: "(?n - 1) div 2 < ?n" by (rule nat_mid_bounds(1) [OF n])
  have lo_eq: "(?n - 1) div 2 = (if ?n mod 2 = 0 then ?n div 2 - 1 else ?n div 2)"
    by (rule nat_mid_bounds(2) [OF n])
  have a: "?n div 4 \<le> (?n - 1) div 2" unfolding lo_eq by (rule nat_index_bounds(5) [OF n])
  have b: "(?n - 1) div 2 \<le> ?n div 2" by simp
  have c: "?n div 2 \<le> 3 * ?n div 4" by simp
  have q1: "ns_q1 st = Num ?q1"
    using f(4) i1 by (simp only: q1_index_eq array_get_of_nat)
  have q3: "ns_q3 st = Num ?q3"
    using f(5) i3 by (simp only: q3_index_eq array_get_of_nat)
  have m1: "js_le (ns_min st) ?q1"
  proof -
    have "?q1 \<in> set ?vs" using i1 set_Array_sort [of js_sub ?vs] nth_mem by blast
    then show ?thesis using Math_min_le [OF validValues_not_NaN] f(6) by simp
  qed
  have m2: "js_le ?q3 (ns_max st)"
  proof -
    have "?q3 \<in> set ?vs" using i3 set_Array_sort [of js_sub ?vs] nth_mem by blast
    then show ?thesis using Math_max_ge [OF validValues_not_NaN] f(7) by simp
  qed
  have s1: "js_le ?q1 ?lo" using srt nn a il by (rule sorted_nth_le)
  have s2: "js_le ?lo ?hi" using srt nn b ih by (rule sorted_nth_le)
  have s3: "js_le ?hi ?q3" using srt nn c i3 by (rule sorted_nth_le)
  have med: "ns_median st = (if even ?n then Num (js_div (js_add ?lo ?hi) (Fin 2)) else Num ?lo)"
  proof (cases "even ?n")
    case True
    then have "?n mod 2 = 0" by presburger
    with f(3) median_of_eq [OF ne] lo_eq True show ?thesis by simp
  next
    case False
    then have "?n mod 2 \<noteq> 0" by presburger
    with f(3) median_of_eq [OF ne] lo_eq False show ?thesis by simp
  qed
  have eq: "odd ?n \<longrightarrow> ?lo = ?hi"
  proof
    assume "odd ?n"
    then have "(?n - 1) div 2 = ?n div 2" by (rule nat_mid_bounds(3) [OF n])
    then show "?lo = ?hi" by (simp only:)
  qed
  have btw: "\<exists>m. ns_median st = Num m \<and> js_le ?lo m \<and> js_le m ?hi \<and>
      js_le (ns_min st) ?q1 \<and> js_le ?q1 m \<and> js_le m ?q3 \<and> js_le ?q3 (ns_max st)"
    if h: "odd ?n \<or> (\<exists>s. js_add ?lo ?hi = Fin s)"
  proof -
    have "\<exists>m. ns_median st = Num m \<and> js_le ?lo m \<and> js_le m ?hi"
    proof (cases "odd ?n")
      case True
      with eq have e: "?lo = ?hi" by simp
      from il nn have "?lo \<noteq> NaN" using nth_mem by blast
      then have "js_le ?lo ?lo" by (rule js_le_refl)
      with True med e show ?thesis by auto
    next
      case False
      with h obtain s where s: "js_add ?lo ?hi = Fin s" by blast
      from il dd have d1: "double_number ?lo" using nth_mem by blast
      from ih dd have d2: "double_number ?hi" using nth_mem by blast
      from average_between [OF d1 d2 s2 s] False med show ?thesis by auto
    qed
    then obtain m where m: "ns_median st = Num m" "js_le ?lo m" "js_le m ?hi" by blast
    from s1 m(2) have "js_le ?q1 m" by (rule js_le_trans)
    moreover from m(3) s3 have "js_le m ?q3" by (rule js_le_trans)
    ultimately show ?thesis using m m1 m2 by blast
  qed
  have mean: "ns_mean st = js_div (foldl js_add (Fin 0) ?vs) (Fin (of_nat ?n))"
    using f(9) len by simp
  from q1 q3 m1 s1 s2 s3 m2 med eq btw mean show ?thesis
    unfolding Let_def by (intro conjI impI) blast+
qed

text \<open>
  Claim C3 as stated fails in both of its parts. On the column \<open>0.1, 0.1, 0.1\<close> the sum is
  \<open>0.30000000000000004\<close> and the mean \<open>0.10000000000000002\<close>, above the maximum \<open>0.1\<close>. On
  the column \<open>2 ^ 1023, 2 ^ 1023\<close> the sum of the two central elements overflows: the median
  (and the mean) is \<open>Infinity\<close>, above \<open>q3\<close> and the maximum, which are \<open>2 ^ 1023\<close>.
\<close>

theorem mean_and_median_counterexample:
  "is_double (3602879701896397 / 36028797018963968) \<and>
   map_option (\<lambda>s. case s of Numeric st \<Rightarrow> (ns_min st, ns_max st, ns_mean st)
                              | Categorical _ \<Rightarrow> (NaN, NaN, NaN))
     (columnStats
        [[(''a'', Num (Fin (3602879701896397 / 36028797018963968)))],
         [(''a'', Num (Fin (3602879701896397 / 36028797018963968)))],
         [(''a'', Num (Fin (3602879701896397 / 36028797018963968)))]] ''a'') =
     Some (Fin (3602879701896397 / 36028797018963968),
           Fin (3602879701896397 / 36028797018963968),
           Fin (7205759403792795 / 72057594037927936)) \<and>
   js_lt (Fin (3602879701896397 / 36028797018963968)) (Fin (7205759403792795 / 72057594037927936)) \<and>
   \<not> js_le (Fin (7205759403792795 / 72057594037927936)) (Fin (3602879701896397 / 36028797018963968)) \<and>
   is_double (pow2 1023) \<and>
   map_option (\<lambda>s. case s of Numeric st \<Rightarrow>
                                (ns_q1 st, ns_median st, ns_q3 st, ns_max st, ns_mean st)
                              | Categorical _ \<Rightarrow> (Null, Null, Null, NaN, NaN))
     (columnStats [[(''a'', Num (Fin (pow2 1023)))], [(''a'', Num (Fin (pow2 1023)))]] ''a'') =
     Some (Num (Fin (pow2 1023)), Num PInf, Num (Fin (pow2 1023)), Fin (pow2 1023), PInf) \<and>
   js_lt (Fin (pow2 1023)) PInf \<and> \<not> js_le PInf (Fin (pow2 1023))"
  by code_simp

text \<open>
  The claim on the column \<open>4, 1, 3, 2\<close>, of even count: \<open>1 \<le> 2 \<le> 2.5 \<le> 4 \<le> 4\<close>.
\<close>

theorem ordered_quartiles_witness:
  "columnStats
     [[(''a'', Num (Fin 4))], [(''a'', Num (Fin 1))], [(''a'', Num (Fin 3))],
      [(''a'', Num (Fin 2))]] ''a'' =
     Some (Numeric \<lparr>ns_count = 4, ns_emptyCount = 0, ns_min = Fin 1, ns_max = Fin 4,
       ns_range = Fin 3, ns_sum = Fin 10, ns_mean = Fin (5 / 2), ns_median = Num (Fin (5 / 2)),
       ns_stdDev = Fin (629397181890197 / 562949953421312),
       ns_q1 = Num (Fin 2), ns_q3 = Num (Fin 4)\<rparr>) \<and>
   list_all (\<lambda>row. double_cell (cell row ''a''))
     [[(''a'', Num (Fin 4))], [(''a'', Num (Fin 1))], [(''a'', Num (Fin 3))],
      [(''a'', Num (Fin 2))]] \<and>
   js_add (Fin 2) (Fin 3) = Fin 5 \<and>
   js_le (Fin 1) (Fin 2) \<and> js_le (Fin 2) (Fin (5 / 2)) \<and> js_le (Fin (5 / 2)) (Fin 4) \<and>
   js_le (Fin 4) (Fin 4)"
proof -
  let ?D = "[[(''a'', Num (Fin 4))], [(''a'', Num (Fin 1))], [(''a'', Num (Fin 3))],
      [(''a'', Num (Fin 2))]]"
  let ?st = "\<lparr>ns_count = 4, ns_emptyCount = 0, ns_min = Fin 1, ns_max = Fin 4,
       ns_range = Fin 3, ns_sum = Fin 10, ns_mean = Fin (5 / 2), ns_median = Num (Fin (5 / 2)),
       ns_stdDev = Fin (629397181890197 / 562949953421312),
       ns_q1 = Num (Fin 2), ns_q3 = Num (Fin 4)\<rparr>"
  have h1: "columnStats ?D ''a'' = Some (Numeric ?st)" by code_simp
  have h2: "list_all (\<lambda>row. double_cell (cell row ''a'')) ?D" by code_simp
  then have h2': "\<forall>row\<in>set ?D. double_cell (cell row ''a'')" by (simp only: list_all_iff)
  have e: "Array_sort js_sub (validValues ?D ''a'') = [Fin 1, Fin 2, Fin 3, Fin 4]"
    by code_simp
  have s: "js_add (Fin 2) (Fin 3) = Fin 5" by code_simp
  have d: "js_div (Fin 5) (Fin 2) = Fin (5 / 2)" by code_simp
  have mn: "js_div (foldl js_add (Fin 0) (validValues ?D ''a'')) (Fin 4) = Fin (5 / 2)"
    by code_simp
  from ordered_quartiles [OF h1 h2']
  have c: "js_le (Fin 1) (Fin 2) \<and> js_le (Fin 2) (Fin (5 / 2)) \<and> js_le (Fin (5 / 2)) (Fin 4) \<and>
      js_le (Fin 4) (Fin 4)"
    unfolding Let_def e by (simp add: s d mn)
  from h1 h2 s c show ?thesis by (intro conjI) simp_all
qed

lemma isqrt_nonneg: "0 \<le> isqrt n"
proof (induction n rule: isqrt.induct)
  case (1 n)
  show ?case
  proof (cases "n < 2")
    case True
    then show ?thesis by (simp add: isqrt.simps [of n])
  next
    case False
    with 1 have "0 \<le> isqrt (n div 4)" by simp
    with False show ?thesis by (simp add: isqrt.simps [of n] Let_def)
  qed
qed

lemma Math_sqrt_nonneg: "Math_sqrt x = NaN \<or> js_le (Fin 0) (Math_sqrt x)"
proof (cases x)
  case (Fin q)
  show ?thesis
  proof (cases "0 < q")
    case True
    let ?e = "max (flog2 q div 2) (- 1022)"
    let ?u = "pow2 (?e - 52)"
    let ?t = "q / (?u * ?u)"
    let ?n = "isqrt \<lfloor>?t\<rfloor>"
    let ?h = "(of_int ?n + 1 / 2) * (of_int ?n + 1 / 2) :: rat"
    define m where "m = (if ?t < ?h then ?n else if ?h < ?t then ?n + 1
                          else if even ?n then ?n else ?n + 1)"
    have "Math_sqrt (Fin q) = Fin (of_int m * ?u)"
      using True unfolding m_def Math_sqrt_def Let_def by simp
    with Fin have "Math_sqrt x = Fin (of_int m * ?u)" by simp
    moreover have "0 \<le> m" unfolding m_def using isqrt_nonneg [of "\<lfloor>?t\<rfloor>"] by simp
    ultimately have m: "0 \<le> m" "Math_sqrt x = Fin (of_int m * ?u)" by simp_all
    from m(1) have "0 \<le> (of_int m :: rat) * ?u" using pow2_pos [of "?e - 52"] by simp
    with m(2) show ?thesis by (simp add: js_le_def js_lt_def)
  next
    case False
    with Fin show ?thesis by (auto simp: Math_sqrt_def js_le_def js_lt_def)
  qed
qed (simp_all add: Math_sqrt_def js_le_def js_lt_def)

text \<open>
  Claim C6, amended: the standard deviation is the square root of the population
  variance (the divisor is the count), computed in floating point from the rounded mean;
  it is never negative: it is \<open>NaN\<close> or at least \<open>0\<close>.
\<close>

theorem stdDev_never_negative:
  assumes "columnStats data selectedColumn = Some (Numeric st)"
  shows "ns_mean st = js_div (foldl js_add (Fin 0) (validValues data selectedColumn))
                        (Fin (of_nat (ns_count st))) \<and>
         ns_stdDev st = Math_sqrt (js_div
           (foldl js_add (Fin 0)
              (map (\<lambda>val. Math_pow2 (js_sub val (ns_mean st))) (validValues data selectedColumn)))
           (Fin (of_nat (ns_count st)))) \<and>
         \<not> js_lt (ns_stdDev st) (Fin 0) \<and>
         (ns_stdDev st = NaN \<or> js_le (Fin 0) (ns_stdDev st))"
proof -
  note f = numericStats_fields [OF columnStats_Numeric [OF assms]]
  have 1: "ns_mean st = js_div (foldl js_add (Fin 0) (validValues data selectedColumn))
                        (Fin (of_nat (ns_count st)))"
    using f(9) f(2) by simp
  have 2: "ns_stdDev st = Math_sqrt (js_div
           (foldl js_add (Fin 0)
              (map (\<lambda>val. Math_pow2 (js_sub val (ns_mean st))) (validValues data selectedColumn)))
           (Fin (of_nat (ns_count st))))"
    using f(10) f(2) by simp
  have 4: "ns_stdDev st = NaN \<or> js_le (Fin 0) (ns_stdDev st)"
    unfolding 2 by (rule Math_sqrt_nonneg)
  then have 3: "\<not> js_lt (ns_stdDev st) (Fin 0)" by (auto simp: js_le_def js_lt_def)
  from 1 2 3 4 show ?thesis by (intro conjI)
qed

text \<open>
  Claim C6 as stated fails on the column \<open>0.1, 0.1, 0.1\<close>: all valid values are equal and
  the standard deviation is \<open>2 ^ - 56\<close>, not \<open>0\<close> (the rounded mean differs from \<open>0.1\<close>).
\<close>

theorem stdDev_equal_values_counterexample:
  "is_double (3602879701896397 / 36028797018963968) \<and>
   validValues
     [[(''a'', Num (Fin (3602879701896397 / 36028797018963968)))],
      [(''a'', Num (Fin (3602879701896397 / 36028797018963968)))],
      [(''a'', Num (Fin (3602879701896397 / 36028797018963968)))]] ''a'' =
     replicate 3 (Fin (3602879701896397 / 36028797018963968)) \<and>
   map_option (\<lambda>s. case s of Numeric st \<Rightarrow> ns_stdDev st | Categorical _ \<Rightarrow> NaN)
     (columnStats
        [[(''a'', Num (Fin (3602879701896397 / 36028797018963968)))],
         [(''a'', Num (Fin (3602879701896397 / 36028797018963968)))],
         [(''a'', Num (Fin (3602879701896397 / 36028797018963968)))]] ''a'') =
     Some (Fin (1 / 72057594037927936)) \<and>
   Fin (1 / 72057594037927936) \<noteq> Fin 0"
  by code_simp

text \<open>
  The claim on the dataset of scenario A.
\<close>

theorem stdDev_never_negative_witness:
  "columnStats
     [[(''a'', Num (Fin 1)), (''b'', Str ''x'')], [(''a'', Num (Fin 2)), (''b'', Str ''y'')],
      [(''a'', Num (Fin 3)), (''b'', Str ''x'')]] ''a'' =
     Some (Numeric \<lparr>ns_count = 3, ns_emptyCount = 0, ns_min = Fin 1, ns_max = Fin 3,
       ns_range = Fin 2, ns_sum = Fin 6, ns_mean = Fin 2, ns_median = Num (Fin 2),
       ns_stdDev = Fin (3677173697615391 / 4503599627370496),
       ns_q1 = Num (Fin 1), ns_q3 = Num (Fin 3)\<rparr>) \<and>
   \<not> js_lt (Fin (3677173697615391 / 4503599627370496)) (Fin 0)"
proof -
  let ?D = "[[(''a'', Num (Fin 1)), (''b'', Str ''x'')], [(''a'', Num (Fin 2)), (''b'', Str ''y'')],
      [(''a'', Num (Fin 3)), (''b'', Str ''x'')]]"
  let ?st = "\<lparr>ns_count = 3, ns_emptyCount = 0, ns_min = Fin 1, ns_max = Fin 3,
       ns_range = Fin 2, ns_sum = Fin 6, ns_mean = Fin 2, ns_median = Num (Fin 2),
       ns_stdDev = Fin (3677173697615391 / 4503599627370496),
       ns_q1 = Num (Fin 1), ns_q3 = Num (Fin 3)\<rparr>"
  have h1: "columnStats ?D ''a'' = Some (Numeric ?st)" by code_simp
  from stdDev_never_negative [OF h1]
  have "\<not> js_lt (ns_stdDev ?st) (Fin 0)" by (elim conjE)
  then have "\<not> js_lt (Fin (3677173697615391 / 4503599627370496)) (Fin 0)" by simp
  with h1 show ?thesis by (intro conjI)
qed


end
